theory Spec2Isabelle
  imports Main
begin

section \<open>Data model of Visualization2D.tsx\<close>

text \<open>
  Modelled from the spec: the type \<open>Id\<close>, declared in \<open>../ClientTypes\<close>, which is not
  among the sources. The specification identifies a node "by an id" and writes ids as
  strings. The code tests an id for truthiness (\<open>node.activeChild ? ... : ...\<close>),
  compares ids with \<open>===\<close> and uses them as \<open>Map\<close> keys, so an id is a JavaScript
  primitive here, an integral number or a string. Equality of the datatype is \<open>===\<close> on
  such values, and \<open>truthy\<close> is the truthiness of JavaScript: the number \<open>0\<close> and the
  empty string are falsy.
\<close>

datatype Id = NumId int | StrId string

fun truthy :: "Id \<Rightarrow> bool" where
  "truthy (NumId n) = (n \<noteq> 0)"
| "truthy (StrId s) = (s \<noteq> [])"

text \<open>
  Modelled from the spec: the types \<open>Coordinate\<close> (\<open>{x, y}\<close>) and \<open>Bounds\<close>
  (\<open>{x, y, width, height}\<close>, all numeric), declared in \<open>../ClientTypes\<close>. Numbers are
  unbounded integers here: rounding of IEEE doubles and \<open>NaN\<close> are outside the model. A
  \<open>Bounds\<close> object is passed where a \<open>Coordinate\<close> is expected
  (\<open>offsetCoordinate(mouseCoordinate, nodeBounds)\<close>), which the record extension mirrors.
\<close>

record Coordinate =
  x :: int
  y :: int

record Bounds = Coordinate +
  width :: int
  height :: int

text \<open>
  Modelled from the spec: the type \<open>ClientNode\<close>, declared in \<open>../ClientTypes\<close> (the
  RawNode of the specification: \<open>id\<close>, \<open>name\<close>, \<open>bounds\<close>, \<open>children\<close> as a list of
  ids, \<open>activeChild\<close> and \<open>parent\<close> as an id or nothing), with the two further fields
  that \<open>uiNodeToNestedNode\<close> copies, \<open>attributes\<close> and \<open>tags\<close>. Their types are opaque
  to the code and are type parameters here. A field that may be missing is an
  \<open>option\<close>.
\<close>

record ('a, 't) ClientNode =
  id :: Id
  parent :: "Id option"
  name :: string
  attributes :: 'a
  children :: "Id list"
  bounds :: Bounds
  tags :: 't
  activeChild :: "Id option"

text \<open>
  Modelled from the spec: the type \<open>NestedNode\<close>, declared in \<open>../DesktopTypes\<close> (the
  ProjectedNode of the specification). Its fields are those of the object literal that
  \<open>uiNodeToNestedNode\<close> builds; \<open>children\<close> holds nodes, not ids, and
  \<open>activeChildIdx\<close> is a number or \<open>undefined\<close>.
\<close>

datatype ('a, 't) NestedNode = NestedNode
  (id: Id)
  (name: string)
  (attributes: 'a)
  (children: "('a, 't) NestedNode list")
  (bounds: Bounds)
  (tags: 't)
  (activeChildIdx: "int option")

type_synonym ('a, 't) NodeMap = "Id \<rightharpoonup> ('a, 't) ClientNode"

section \<open>toNestedNode\<close>

text \<open>
  \<open>Array.prototype.indexOf\<close>: the first index whose element is \<open>===\<close> to the value
  searched for, \<open>-1\<close> when there is none.
\<close>

fun indexOfFrom :: "'a list \<Rightarrow> 'a \<Rightarrow> int \<Rightarrow> int" where
  "indexOfFrom [] a k = - 1"
| "indexOfFrom (e # es) a k = (if e = a then k else indexOfFrom es a (k + 1))"

definition indexOf :: "'a list \<Rightarrow> 'a \<Rightarrow> int" where
  "indexOf es a = indexOfFrom es a 0"

text \<open>
  \<open>uiNodeToNestedNode\<close> recurses along the child ids of the map and does not return on
  a map with a cycle, so the model carries fuel (the depth of recursion still allowed):
  \<open>None\<close> says that no value is returned within that depth. The arguments of
  \<open>console.error\<close> are evaluated before the node is built; they project the resolving
  children a first time, and the log itself leaves the result unchanged.
\<close>

fun uiNodeToNestedNode ::
  "nat \<Rightarrow> ('a, 't) NodeMap \<Rightarrow> ('a, 't) ClientNode \<Rightarrow> ('a, 't) NestedNode option" where
  "uiNodeToNestedNode 0 nodes node = None"
| "uiNodeToNestedNode (Suc fuel) nodes node =
    (let nonNullChildren =
           filter (\<lambda>childId. nodes childId \<noteq> None) (ClientNode.children node);
         logged =
           (if length nonNullChildren \<noteq> length (ClientNode.children node)
            then map_option (\<lambda>_. ())
                   (those (map (\<lambda>childId. case nodes childId of
                                   None \<Rightarrow> Some None
                                 | Some child \<Rightarrow>
                                     map_option Some (uiNodeToNestedNode fuel nodes child))
                            nonNullChildren))
            else Some ())
     in case logged of
          None \<Rightarrow> None
        | Some _ \<Rightarrow>
            (let activeChildIdx =
                   (case ClientNode.activeChild node of
                      None \<Rightarrow> None
                    | Some a \<Rightarrow> if truthy a then Some (indexOf nonNullChildren a) else None)
             in case those (map (\<lambda>childId. case nodes childId of
                                   None \<Rightarrow> None
                                 | Some child \<Rightarrow> uiNodeToNestedNode fuel nodes child)
                            nonNullChildren) of
                  None \<Rightarrow> None
                | Some cs \<Rightarrow>
                    Some (NestedNode (ClientNode.id node) (ClientNode.name node)
                            (ClientNode.attributes node) cs (ClientNode.bounds node)
                            (ClientNode.tags node) activeChildIdx)))"

text \<open>
  The outer \<open>option\<close> of the result is the fuel, the inner one is \<open>undefined\<close>.
\<close>

definition toNestedNode ::
  "nat \<Rightarrow> Id \<Rightarrow> ('a, 't) NodeMap \<Rightarrow> ('a, 't) NestedNode option option" where
  "toNestedNode fuel rootId nodes =
     (case nodes rootId of
        None \<Rightarrow> Some None
      | Some root \<Rightarrow> map_option Some (uiNodeToNestedNode fuel nodes root))"

section \<open>caclulateFocusState\<close>

record ('a, 't) FocusState =
  actualRoot :: "('a, 't) NestedNode"
  focusedRoot :: "('a, 't) NestedNode"
  focusedRootGlobalOffset :: Coordinate

text \<open>
  \<open>produce(node, (draft) => {draft.bounds.x = 0; draft.bounds.y = 0})\<close>: a copy of the
  node in which only the two fields written to on the draft differ.
\<close>

fun zeroBoundsOrigin :: "('a, 't) NestedNode \<Rightarrow> ('a, 't) NestedNode" where
  "zeroBoundsOrigin (NestedNode i nm at cs b tg ai) =
     NestedNode i nm at cs (b\<lparr>x := 0, y := 0\<rparr>) tg ai"

text \<open>
  The \<open>for\<close> loop over \<open>node.children\<close> with its early \<open>return\<close> is the second
  function of the mutual recursion; \<open>None\<close> is \<open>undefined\<close>.
\<close>

fun findNodeAndGlobalOffsetRec ::
  "('a, 't) NestedNode \<Rightarrow> Coordinate \<Rightarrow> ('a, 't) NestedNode \<Rightarrow> Id
     \<Rightarrow> ('a, 't) FocusState option"
and findNodeAndGlobalOffsetLoop ::
  "('a, 't) NestedNode list \<Rightarrow> Coordinate \<Rightarrow> ('a, 't) NestedNode \<Rightarrow> Id
     \<Rightarrow> ('a, 't) FocusState option" where
  "findNodeAndGlobalOffsetRec (NestedNode i nm at cs b tg ai) globalOffset root target =
     (let node = NestedNode i nm at cs b tg ai;
          nextOffset = \<lparr>x = x globalOffset + x (bounds node),
                        y = y globalOffset + y (bounds node)\<rparr>
      in if id node = target
         then Some \<lparr>actualRoot = root,
                     focusedRoot = zeroBoundsOrigin node,
                     focusedRootGlobalOffset = nextOffset\<rparr>
         else findNodeAndGlobalOffsetLoop cs nextOffset root target)"
| "findNodeAndGlobalOffsetLoop [] nextOffset root target = None"
| "findNodeAndGlobalOffsetLoop (child # rest) nextOffset root target =
     (case findNodeAndGlobalOffsetRec child nextOffset root target of
        Some offset \<Rightarrow> Some offset
      | None \<Rightarrow> findNodeAndGlobalOffsetLoop rest nextOffset root target)"

definition caclulateFocusState ::
  "('a, 't) NestedNode \<Rightarrow> Id option \<Rightarrow> ('a, 't) FocusState" where
  "caclulateFocusState root target =
     (let rootFocusState = \<lparr>actualRoot = root, focusedRoot = root,
                             focusedRootGlobalOffset = \<lparr>x = 0, y = 0\<rparr>\<rparr>
      in case target of
           None \<Rightarrow> rootFocusState
         | Some t \<Rightarrow>
             (case findNodeAndGlobalOffsetRec root \<lparr>x = 0, y = 0\<rparr> root t of
                Some found \<Rightarrow> found
              | None \<Rightarrow> rootFocusState))"

section \<open>hitTest\<close>

definition boundsContainsCoordinate :: "Bounds \<Rightarrow> Coordinate \<Rightarrow> bool" where
  "boundsContainsCoordinate b coordinate \<longleftrightarrow>
     x coordinate \<ge> x b \<and> x coordinate \<le> x b + width b \<and>
     y coordinate \<ge> y b \<and> y coordinate \<le> y b + height b"

definition offsetCoordinate :: "Coordinate \<Rightarrow> 'z Coordinate_scheme \<Rightarrow> Coordinate" where
  "offsetCoordinate coordinate offset =
     \<lparr>x = x coordinate - x offset, y = y coordinate - y offset\<rparr>"

text \<open>
  Reading an array at an index: \<open>undefined\<close> (\<open>None\<close>) when the index is negative or
  not below the length.
\<close>

definition arrayGet :: "'a list \<Rightarrow> int \<Rightarrow> 'a option" where
  "arrayGet es k = (if 0 \<le> k \<and> nat k < length es then Some (es ! nat k) else None)"

text \<open>
  The local variable \<open>children\<close> of \<open>hitTestRec\<close> (lines 513 to 517): all children, or
  the one-element array holding whatever is read at \<open>activeChildIdx\<close>.
\<close>

definition candidateChildren :: "('a, 't) NestedNode \<Rightarrow> ('a, 't) NestedNode option list" where
  "candidateChildren node =
     (case activeChildIdx node of
        None \<Rightarrow> map Some (children node)
      | Some k \<Rightarrow> [arrayGet (children node) k])"

text \<open>
  \<open>hitTestRec\<close> with the array \<open>res\<close> it pushes to passed in and returned. Called on
  \<open>undefined\<close> it throws a \<open>TypeError\<close> at \<open>node.bounds\<close>, which nothing catches:
  \<open>None\<close> is that exception. The second function is the \<open>for\<close> loop over the
  candidate children, with the current \<open>childHit\<close>.
\<close>

function hitTestRec ::
  "('a, 't) NestedNode option \<Rightarrow> Coordinate \<Rightarrow> ('a, 't) NestedNode list
     \<Rightarrow> (bool \<times> ('a, 't) NestedNode list) option"
and hitTestLoop ::
  "('a, 't) NestedNode option list \<Rightarrow> Coordinate \<Rightarrow> bool \<Rightarrow> ('a, 't) NestedNode list
     \<Rightarrow> (bool \<times> ('a, 't) NestedNode list) option" where
  "hitTestRec None mouseCoordinate res = None"
| "hitTestRec (Some node) mouseCoordinate res =
     (let nodeBounds = bounds node;
          thisNodeHit = boundsContainsCoordinate nodeBounds mouseCoordinate;
          offsetMouseCoord = offsetCoordinate mouseCoordinate nodeBounds
      in case hitTestLoop (candidateChildren node) offsetMouseCoord False res of
           None \<Rightarrow> None
         | Some (childHit, res') \<Rightarrow>
             (let hit = thisNodeHit \<and> \<not> childHit
              in Some (hit, if hit then res' @ [node] else res')))"
| "hitTestLoop [] offsetMouseCoord childHit res = Some (childHit, res)"
| "hitTestLoop (child # rest) offsetMouseCoord childHit res =
     (case hitTestRec child offsetMouseCoord res of
        None \<Rightarrow> None
      | Some (h, res') \<Rightarrow> hitTestLoop rest offsetMouseCoord (h \<or> childHit) res')"
  by pat_completeness auto
termination
proof (relation "measure (\<lambda>v. case v of
          Inl (node, _) \<Rightarrow> (case node of None \<Rightarrow> 0 | Some n \<Rightarrow> 2 * size n)
        | Inr (cs, _) \<Rightarrow>
            sum_list (map (\<lambda>c. Suc (case c of None \<Rightarrow> 0 | Some n \<Rightarrow> 2 * size n)) cs))",
    goal_cases)
  case 1
  show ?case by simp
next
  case (2 node mouseCoordinate res nodeBounds thisNodeHit offsetMouseCoord)
  have all: "sum_list (map (\<lambda>c. Suc (case c of None \<Rightarrow> 0 | Some n \<Rightarrow> 2 * size n)) (map Some es))
               \<le> 2 * size_list size es"
    for es :: "('a, 't) NestedNode list"
    by (induction es) auto
  have one: "size (es ! k) \<le> size_list size es" if "k < length es"
    for es :: "('a, 't) NestedNode list" and k
    using that by (intro size_list_estimation' [of "es ! k"]) simp_all
  show ?case
  proof (cases node)
    case (NestedNode i nm at cs b tg ai)
    show ?thesis
    proof (cases ai)
      case None
      with NestedNode all [of cs] show ?thesis
        by (simp add: candidateChildren_def)
    next
      case (Some k)
      with NestedNode one [of "nat k" cs] show ?thesis
        by (auto simp: candidateChildren_def arrayGet_def)
    qed
  qed
next
  case 3
  then show ?case by (simp split: option.splits)
next
  case 4
  then show ?case by simp
qed

text \<open>
  \<open>Array.prototype.sort\<close> is stable, and the comparator orders by the area
  \<open>bounds.height * bounds.width\<close>: a stable sort by that key.
\<close>

definition area :: "('a, 't) NestedNode \<Rightarrow> int" where
  "area a = height (bounds a) * width (bounds a)"

definition hitTest ::
  "('a, 't) NestedNode \<Rightarrow> Coordinate \<Rightarrow> ('a, 't) NestedNode list option" where
  "hitTest node mouseCoordinate =
     (case hitTestRec (Some node) mouseCoordinate [] of
        None \<Rightarrow> None
      | Some (_, res) \<Rightarrow> Some (sort_key area res))"

section \<open>getTotalOffset\<close>

text \<open>
  The \<open>while\<close> loop follows \<open>parent\<close> links and runs forever on a cyclic chain:
  \<open>None\<close> says that the loop does not end. \<open>cur?.parent\<close> is \<open>undefined\<close> when the
  id does not resolve.
\<close>

partial_function (option) getTotalOffsetLoop ::
  "('a, 't) NodeMap \<Rightarrow> Id option \<Rightarrow> Coordinate \<Rightarrow> Coordinate option" where
  "getTotalOffsetLoop nodes curId offset =
     (case curId of
        None \<Rightarrow> Some offset
      | Some i \<Rightarrow>
          (case nodes i of
             None \<Rightarrow> getTotalOffsetLoop nodes None offset
           | Some cur \<Rightarrow>
               getTotalOffsetLoop nodes (ClientNode.parent cur)
                 \<lparr>x = x offset + x (ClientNode.bounds cur),
                  y = y offset + y (ClientNode.bounds cur)\<rparr>))"

definition getTotalOffset :: "Id \<Rightarrow> ('a, 't) NodeMap \<Rightarrow> Coordinate option" where
  "getTotalOffset i nodes = getTotalOffsetLoop nodes (Some i) \<lparr>x = 0, y = 0\<rparr>"

section \<open>Trees, paths and examples\<close>

text \<open>
  The nodes of a projected tree in pre-order, the root first; the paths from the root to
  each of its nodes (every path starts with the root and each next node is a child of
  the one before); the proper descendants of a node.
\<close>

fun subtree :: "('a, 't) NestedNode \<Rightarrow> ('a, 't) NestedNode list" where
  "subtree (NestedNode i nm at cs b tg ai) =
     NestedNode i nm at cs b tg ai # concat (map subtree cs)"

fun paths :: "('a, 't) NestedNode \<Rightarrow> ('a, 't) NestedNode list list" where
  "paths (NestedNode i nm at cs b tg ai) =
     [NestedNode i nm at cs b tg ai]
       # map ((#) (NestedNode i nm at cs b tg ai)) (concat (map paths cs))"

definition descendants :: "('a, 't) NestedNode \<Rightarrow> ('a, 't) NestedNode list" where
  "descendants node = concat (map subtree (children node))"

definition pathOffset :: "('a, 't) NestedNode list \<Rightarrow> Coordinate" where
  "pathOffset p = \<lparr>x = sum_list (map (\<lambda>n. x (bounds n)) p),
                   y = sum_list (map (\<lambda>n. y (bounds n)) p)\<rparr>"

text \<open>A node without name, attributes and tags, for the worked examples.\<close>

definition exampleNode ::
  "Id \<Rightarrow> int \<Rightarrow> int \<Rightarrow> int \<Rightarrow> int \<Rightarrow> int option \<Rightarrow> (unit, unit) NestedNode list
     \<Rightarrow> (unit, unit) NestedNode" where
  "exampleNode i bx by w h ai cs =
     NestedNode i [] () cs \<lparr>x = bx, y = by, width = w, height = h\<rparr> () ai"

section \<open>Projection: the raw map and its projected tree\<close>

text \<open>
  The child ids of a raw node that resolve in the map, in their order: the array
  \<open>nonNullChildren\<close> of \<open>uiNodeToNestedNode\<close>.
\<close>

definition resolvingChildren :: "('a, 't) NodeMap \<Rightarrow> ('a, 't) ClientNode \<Rightarrow> Id list" where
  "resolvingChildren nodes node =
     filter (\<lambda>childId. nodes childId \<noteq> None) (ClientNode.children node)"

text \<open>
  What the specification asks of a projected tree: the node carries the fields of its
  raw node, and its children are, position by position, the projections of the
  resolving child ids of the raw node.
\<close>

fun projectionOf ::
  "('a, 't) NodeMap \<Rightarrow> ('a, 't) ClientNode \<Rightarrow> ('a, 't) NestedNode \<Rightarrow> bool" where
  "projectionOf nodes raw (NestedNode i nm at cs b tg ai) \<longleftrightarrow>
     i = ClientNode.id raw \<and> nm = ClientNode.name raw \<and> at = ClientNode.attributes raw \<and>
     b = ClientNode.bounds raw \<and> tg = ClientNode.tags raw \<and>
     list_all2 (\<lambda>childId c. case nodes childId of
                               None \<Rightarrow> False
                             | Some child \<Rightarrow> projectionOf nodes child c)
       (resolvingChildren nodes raw) cs"

text \<open>
  The child links of a map that resolve, as a relation from child to parent, and the
  maps on which the recursion from a root id runs into a cycle: some id that the root
  reaches along such links (the root itself included) reaches itself.
\<close>

definition childRel :: "('a, 't) NodeMap \<Rightarrow> (Id \<times> Id) set" where
  "childRel nodes =
     {(c, p). \<exists>n. nodes p = Some n \<and> c \<in> set (ClientNode.children n) \<and> nodes c \<noteq> None}"

definition cycleReachable :: "('a, 't) NodeMap \<Rightarrow> Id \<Rightarrow> bool" where
  "cycleReachable nodes rootId \<longleftrightarrow>
     (\<exists>i. (i, rootId) \<in> (childRel nodes)\<^sup>* \<and> (i, i) \<in> (childRel nodes)\<^sup>+)"

text \<open>Raw nodes and maps for the worked examples.\<close>

definition exampleRaw ::
  "Id \<Rightarrow> Id option \<Rightarrow> int \<Rightarrow> int \<Rightarrow> int \<Rightarrow> int \<Rightarrow> Id option \<Rightarrow> Id list \<Rightarrow> (unit, unit) ClientNode" where
  "exampleRaw i p bx by w h a cs =
     \<lparr>ClientNode.id = i, parent = p, ClientNode.name = [], ClientNode.attributes = (),
      ClientNode.children = cs,
      ClientNode.bounds = \<lparr>x = bx, y = by, width = w, height = h\<rparr>,
      ClientNode.tags = (), activeChild = a\<rparr>"

definition activeChildMap :: "(unit, unit) NodeMap" where
  "activeChildMap =
     [StrId ''A'' \<mapsto> exampleRaw (StrId ''A'') None 0 0 100 100 (Some (StrId ''C''))
                        [StrId ''B'', StrId ''C''],
      StrId ''B'' \<mapsto> exampleRaw (StrId ''B'') (Some (StrId ''A'')) 0 0 10 10 None [],
      StrId ''C'' \<mapsto> exampleRaw (StrId ''C'') (Some (StrId ''A'')) 0 0 10 10 None []]"

definition danglingActiveMap :: "(unit, unit) NodeMap" where
  "danglingActiveMap =
     [StrId ''A'' \<mapsto> exampleRaw (StrId ''A'') None 0 0 100 100 (Some (StrId ''ghost''))
                        [StrId ''B'', StrId ''ghost''],
      StrId ''B'' \<mapsto> exampleRaw (StrId ''B'') (Some (StrId ''A'')) 0 0 10 10 None []]"

definition strayCycleMap :: "(unit, unit) NodeMap" where
  "strayCycleMap =
     [StrId ''A'' \<mapsto> exampleRaw (StrId ''A'') None 0 0 100 100 (Some (StrId ''ghost''))
                        [StrId ''B'', StrId ''ghost''],
      StrId ''B'' \<mapsto> exampleRaw (StrId ''B'') (Some (StrId ''A'')) 0 0 10 10 None [],
      StrId ''S'' \<mapsto> exampleRaw (StrId ''S'') None 0 0 10 10 None [StrId ''S'']]"

definition selfLoopMap :: "(unit, unit) NodeMap" where
  "selfLoopMap = [NumId 1 \<mapsto> exampleRaw (NumId 1) None 0 0 10 10 None [NumId 1]]"

definition staleActiveMap :: "(unit, unit) NodeMap" where
  "staleActiveMap = [NumId 1 \<mapsto> exampleRaw (NumId 1) None 0 0 10 10 (Some (NumId 99)) []]"

section \<open>Hit testing as a pure descent\<close>

text \<open>
  The entries of a list at the candidate positions: all of them when there is no
  active child, the one at the active index when that index is in range, none otherwise.
\<close>

definition selectActive :: "int option \<Rightarrow> 'b list \<Rightarrow> 'b list" where
  "selectActive ai es =
     (case ai of
        None \<Rightarrow> es
      | Some k \<Rightarrow> (case arrayGet es k of None \<Rightarrow> [] | Some e \<Rightarrow> [e]))"

text \<open>
  What \<open>hitTestRec\<close> returns for a node, without the array it pushes to: the node is
  reported as hit at a pointer (given in the frame of its parent) when its bounds
  contain the pointer and no candidate child is reported as hit at the pointer moved
  into the node's frame.
\<close>

fun reportedHit :: "('a, 't) NestedNode \<Rightarrow> Coordinate \<Rightarrow> bool" where
  "reportedHit (NestedNode i nm at cs b tg ai) m \<longleftrightarrow>
     boundsContainsCoordinate b m \<and>
     \<not> (\<exists>h \<in> set (selectActive ai (map (\<lambda>c. reportedHit c (offsetCoordinate m b)) cs)). h)"

text \<open>
  The nodes that the descent visits, each with the pointer it is tested against: the
  node itself, then what is visited below each candidate child.
\<close>

fun reached :: "('a, 't) NestedNode \<Rightarrow> Coordinate \<Rightarrow> (('a, 't) NestedNode \<times> Coordinate) list" where
  "reached (NestedNode i nm at cs b tg ai) m =
     (NestedNode i nm at cs b tg ai, m)
       # concat (selectActive ai (map (\<lambda>c. reached c (offsetCoordinate m b)) cs))"

text \<open>The nodes reported as hit, in the order of the post-order descent.\<close>

fun hitsPostOrder :: "('a, 't) NestedNode \<Rightarrow> Coordinate \<Rightarrow> ('a, 't) NestedNode list" where
  "hitsPostOrder (NestedNode i nm at cs b tg ai) m =
     concat (selectActive ai (map (\<lambda>c. hitsPostOrder c (offsetCoordinate m b)) cs))
       @ (if reportedHit (NestedNode i nm at cs b tg ai) m
          then [NestedNode i nm at cs b tg ai] else [])"

text \<open>Trees for the worked examples of hit testing.\<close>

definition innermostExample :: "(unit, unit) NestedNode" where
  "innermostExample =
     exampleNode (StrId ''root'') 0 0 100 100 None
       [exampleNode (StrId ''C'') 10 10 20 20 None []]"

definition nestedExample :: "(unit, unit) NestedNode" where
  "nestedExample =
     exampleNode (StrId ''N'') 0 0 100 100 None
       [exampleNode (StrId ''C'') 10 10 50 50 None
          [exampleNode (StrId ''G'') 5 5 10 10 None []]]"

definition tabsExample :: "(unit, unit) NestedNode" where
  "tabsExample =
     exampleNode (StrId ''root'') 0 0 100 100 (Some 1)
       [exampleNode (StrId ''D'') 0 0 50 50 None [],
        exampleNode (StrId ''E'') 0 0 50 50 None []]"

section \<open>Parent chains\<close>

text \<open>
  The parent links of a map, as a relation from parent to child, and the nodes visited
  by following parent links from an id until a link is null or does not resolve.
\<close>

definition parentRel :: "('a, 't) NodeMap \<Rightarrow> (Id \<times> Id) set" where
  "parentRel nodes = {(p, c). \<exists>n. nodes c = Some n \<and> ClientNode.parent n = Some p}"

inductive parentChain ::
  "('a, 't) NodeMap \<Rightarrow> Id option \<Rightarrow> ('a, 't) ClientNode list \<Rightarrow> bool"
  for nodes :: "('a, 't) NodeMap" where
  chainNull: "parentChain nodes None []"
| chainUnresolved: "nodes i = None \<Longrightarrow> parentChain nodes (Some i) []"
| chainStep: "nodes i = Some cur \<Longrightarrow> parentChain nodes (ClientNode.parent cur) ns \<Longrightarrow>
     parentChain nodes (Some i) (cur # ns)"

code_pred parentChain .

definition offsetMap :: "(unit, unit) NodeMap" where
  "offsetMap =
     [NumId 1 \<mapsto> exampleRaw (NumId 1) None 10 10 200 200 None [NumId 2],
      NumId 2 \<mapsto> exampleRaw (NumId 2) (Some (NumId 1)) 5 5 20 20 None []]"

section \<open>Focus state\<close>

lemma find_absent:
  "target \<notin> id ` set (subtree node) \<Longrightarrow>
     findNodeAndGlobalOffsetRec node off root target = None"
  "target \<notin> id ` (\<Union>c \<in> set cs. set (subtree c)) \<Longrightarrow>
     findNodeAndGlobalOffsetLoop cs off root target = None"
  by (induction node off root target and cs off root target
        rule: findNodeAndGlobalOffsetRec_findNodeAndGlobalOffsetLoop.induct)
     (auto simp: Let_def image_Un)

text \<open>
  Claim C8. \<open>caclulateFocusState\<close> returns the trivial state (\<open>actualRoot\<close> and
  \<open>focusedRoot\<close> both the root, offset \<open>{x: 0, y: 0}\<close>) when the target is
  \<open>undefined\<close>, and also when the target id is the id of no node of the tree.
\<close>

theorem focus_fallback:
  "caclulateFocusState root None =
     \<lparr>actualRoot = root, focusedRoot = root, focusedRootGlobalOffset = \<lparr>x = 0, y = 0\<rparr>\<rparr>
   \<and> (t \<notin> id ` set (subtree root) \<longrightarrow>
        caclulateFocusState root (Some t) =
          \<lparr>actualRoot = root, focusedRoot = root,
           focusedRootGlobalOffset = \<lparr>x = 0, y = 0\<rparr>\<rparr>)"
  by (simp add: caclulateFocusState_def find_absent)

theorem focus_fallback_witness:
  "StrId ''nonexistent-id'' \<notin> id ` set (subtree (exampleNode (StrId ''R'') 0 0 200 200 None
          [exampleNode (StrId ''A'') 10 10 50 50 None []]))
   \<and> caclulateFocusState (exampleNode (StrId ''R'') 0 0 200 200 None
          [exampleNode (StrId ''A'') 10 10 50 50 None []]) (Some (StrId ''nonexistent-id'')) =
     \<lparr>actualRoot = exampleNode (StrId ''R'') 0 0 200 200 None
          [exampleNode (StrId ''A'') 10 10 50 50 None []],
      focusedRoot = exampleNode (StrId ''R'') 0 0 200 200 None
          [exampleNode (StrId ''A'') 10 10 50 50 None []],
      focusedRootGlobalOffset = \<lparr>x = 0, y = 0\<rparr>\<rparr>"
  using focus_fallback [of "exampleNode (StrId ''R'') 0 0 200 200 None
          [exampleNode (StrId ''A'') 10 10 50 50 None []]" "StrId ''nonexistent-id''"]
  by (simp add: exampleNode_def)

lemma find_present:
  "target \<in> id ` set (subtree node) \<Longrightarrow>
     \<exists>p \<in> set (paths node). id (last p) = target \<and> (\<forall>n \<in> set (butlast p). id n \<noteq> target) \<and>
       findNodeAndGlobalOffsetRec node off root target =
         Some \<lparr>actualRoot = root, focusedRoot = zeroBoundsOrigin (last p),
               focusedRootGlobalOffset =
                 \<lparr>x = x off + x (pathOffset p), y = y off + y (pathOffset p)\<rparr>\<rparr>"
  "target \<in> id ` (\<Union>c \<in> set cs. set (subtree c)) \<Longrightarrow>
     \<exists>c \<in> set cs. \<exists>p \<in> set (paths c). id (last p) = target \<and> (\<forall>n \<in> set (butlast p). id n \<noteq> target) \<and>
       findNodeAndGlobalOffsetLoop cs off root target =
         Some \<lparr>actualRoot = root, focusedRoot = zeroBoundsOrigin (last p),
               focusedRootGlobalOffset =
                 \<lparr>x = x off + x (pathOffset p), y = y off + y (pathOffset p)\<rparr>\<rparr>"
proof (induction node off root target and cs off root target
        rule: findNodeAndGlobalOffsetRec_findNodeAndGlobalOffsetLoop.induct)
  case (1 i nm at cs b tg ai globalOffset root target)
  let ?node = "NestedNode i nm at cs b tg ai"
  show ?case
  proof (cases "i = target")
    case True
    then show ?thesis
      by (intro bexI [of _ "[?node]"]) (simp_all add: pathOffset_def)
  next
    case False
    with "1.prems" have "target \<in> id ` (\<Union>c \<in> set cs. set (subtree c))"
      by auto
    from "1.IH" [OF refl refl _ this] False
    obtain c p where c: "c \<in> set cs" and p: "p \<in> set (paths c)"
      and l: "id (last p) = target" and b: "\<forall>n \<in> set (butlast p). id n \<noteq> target"
      and r: "findNodeAndGlobalOffsetLoop cs
                \<lparr>x = x globalOffset + x b, y = y globalOffset + y b\<rparr> root target =
              Some \<lparr>actualRoot = root, focusedRoot = zeroBoundsOrigin (last p),
                focusedRootGlobalOffset =
                  \<lparr>x = x globalOffset + x b + x (pathOffset p),
                   y = y globalOffset + y b + y (pathOffset p)\<rparr>\<rparr>"
      by auto
    have ne: "p \<noteq> []" using p by (cases c) auto
    have "?node # p \<in> set (paths ?node)" using c p by auto
    moreover have "id (last (?node # p)) = target" using l ne by simp
    moreover have "\<forall>n \<in> set (butlast (?node # p)). id n \<noteq> target"
      using b ne False by simp
    moreover have "findNodeAndGlobalOffsetRec ?node globalOffset root target =
       Some \<lparr>actualRoot = root, focusedRoot = zeroBoundsOrigin (last (?node # p)),
               focusedRootGlobalOffset =
                 \<lparr>x = x globalOffset + x (pathOffset (?node # p)),
                  y = y globalOffset + y (pathOffset (?node # p))\<rparr>\<rparr>"
      using r False ne by (simp add: pathOffset_def)
    ultimately show ?thesis by blast
  qed
next
  case (2 nextOffset root target)
  then show ?case by simp
next
  case (3 child rest nextOffset root target)
  show ?case
  proof (cases "target \<in> id ` set (subtree child)")
    case True
    from "3.IH"(1) [OF True] show ?thesis by auto
  next
    case False
    then have none: "findNodeAndGlobalOffsetRec child nextOffset root target = None"
      by (rule find_absent)
    from False "3.prems" have "target \<in> id ` (\<Union>c \<in> set rest. set (subtree c))"
      by auto
    from "3.IH"(2) [OF none this] none show ?thesis by auto
  qed
qed

lemma zeroBoundsOrigin_fields:
  "id (zeroBoundsOrigin n) = id n" "name (zeroBoundsOrigin n) = name n"
  "attributes (zeroBoundsOrigin n) = attributes n" "children (zeroBoundsOrigin n) = children n"
  "tags (zeroBoundsOrigin n) = tags n" "activeChildIdx (zeroBoundsOrigin n) = activeChildIdx n"
  "bounds (zeroBoundsOrigin n) =
     \<lparr>x = 0, y = 0, width = width (bounds n), height = height (bounds n)\<rparr>"
  by (cases n; simp)+

lemma paths_nonempty: "[] \<notin> set (paths node)"
  by (cases node) auto

lemma paths_last_subtree: "p \<in> set (paths node) \<Longrightarrow> last p \<in> set (subtree node)"
proof (induction node arbitrary: p)
  case (NestedNode i nm at cs b tg ai)
  show ?case
  proof (cases "p = [NestedNode i nm at cs b tg ai]")
    case True
    then show ?thesis by simp
  next
    case False
    with NestedNode.prems obtain c q where c: "c \<in> set cs" and q: "q \<in> set (paths c)"
      and p: "p = NestedNode i nm at cs b tg ai # q"
      by auto
    have "q \<noteq> []" using q paths_nonempty [of c] by auto
    with NestedNode.IH [OF c q] c p show ?thesis by auto
  qed
qed

lemma paths_descendants:
  assumes "p \<in> set (paths node)"
  shows "p = [node] \<or> last p \<in> set (descendants node)"
proof (cases "p = [node]")
  case True
  then show ?thesis by simp
next
  case False
  obtain i nm at cs b tg ai where node: "node = NestedNode i nm at cs b tg ai"
    by (cases node)
  with assms False obtain c q where c: "c \<in> set cs" and q: "q \<in> set (paths c)"
    and p: "p = node # q"
    by auto
  from q have "q \<noteq> []" using paths_nonempty [of c] by auto
  with p paths_last_subtree [OF q] c node show ?thesis
    by (auto simp: descendants_def)
qed

text \<open>
  Claim C3. When the target id occurs in the tree, there is a path from the root to a
  node with that id (no node before it on the path has the id) such that the state
  returned has the root as \<open>actualRoot\<close>, the sums of \<open>bounds.x\<close> and \<open>bounds.y\<close> over
  the whole path, the target node included, as \<open>focusedRootGlobalOffset\<close>, and as
  \<open>focusedRoot\<close> the target node with \<open>bounds.x\<close> and \<open>bounds.y\<close> set to 0 and every
  other field, width and height among them, as it was.
\<close>

theorem focus_state_of_target:
  "target \<in> id ` set (subtree root) \<Longrightarrow>
     \<exists>p \<in> set (paths root).
       hd p = root \<and> id (last p) = target \<and> (\<forall>n \<in> set (butlast p). id n \<noteq> target) \<and>
       actualRoot (caclulateFocusState root (Some target)) = root \<and>
       focusedRootGlobalOffset (caclulateFocusState root (Some target)) =
         \<lparr>x = sum_list (map (\<lambda>n. x (bounds n)) p), y = sum_list (map (\<lambda>n. y (bounds n)) p)\<rparr> \<and>
       id (focusedRoot (caclulateFocusState root (Some target))) = id (last p) \<and>
       name (focusedRoot (caclulateFocusState root (Some target))) = name (last p) \<and>
       attributes (focusedRoot (caclulateFocusState root (Some target))) = attributes (last p) \<and>
       children (focusedRoot (caclulateFocusState root (Some target))) = children (last p) \<and>
       tags (focusedRoot (caclulateFocusState root (Some target))) = tags (last p) \<and>
       activeChildIdx (focusedRoot (caclulateFocusState root (Some target))) =
         activeChildIdx (last p) \<and>
       bounds (focusedRoot (caclulateFocusState root (Some target))) =
         \<lparr>x = 0, y = 0, width = width (bounds (last p)), height = height (bounds (last p))\<rparr>"
proof -
  assume "target \<in> id ` set (subtree root)"
  from find_present(1) [OF this, of "\<lparr>x = 0, y = 0\<rparr>" root]
  obtain p where p: "p \<in> set (paths root)" and l: "id (last p) = target"
    and b: "\<forall>n \<in> set (butlast p). id n \<noteq> target"
    and r: "findNodeAndGlobalOffsetRec root \<lparr>x = 0, y = 0\<rparr> root target =
       Some \<lparr>actualRoot = root, focusedRoot = zeroBoundsOrigin (last p),
               focusedRootGlobalOffset = \<lparr>x = 0 + x (pathOffset p), y = 0 + y (pathOffset p)\<rparr>\<rparr>"
    by auto
  have "hd p = root" using p by (cases root) auto
  with p l b r show ?thesis
    by (intro bexI [of _ p])
       (simp_all add: caclulateFocusState_def zeroBoundsOrigin_fields pathOffset_def)
qed

text \<open>
  The example of the specification: R at (0,0,200,200), its child A at (10,10,50,50),
  A's child B at (5,5,20,20); focusing B gives the offset (15,15) and the bounds
  (0,0,20,20).
\<close>

theorem focus_state_of_target_witness:
  "NumId 3 \<in> id ` set (subtree
      (exampleNode (NumId 1) 0 0 200 200 None
        [exampleNode (NumId 2) 10 10 50 50 None [exampleNode (NumId 3) 5 5 20 20 None []]]))
   \<and> focusedRootGlobalOffset (caclulateFocusState
        (exampleNode (NumId 1) 0 0 200 200 None
          [exampleNode (NumId 2) 10 10 50 50 None [exampleNode (NumId 3) 5 5 20 20 None []]])
        (Some (NumId 3))) = \<lparr>x = 15, y = 15\<rparr>
   \<and> bounds (focusedRoot (caclulateFocusState
        (exampleNode (NumId 1) 0 0 200 200 None
          [exampleNode (NumId 2) 10 10 50 50 None [exampleNode (NumId 3) 5 5 20 20 None []]])
        (Some (NumId 3)))) = \<lparr>x = 0, y = 0, width = 20, height = 20\<rparr>"
  using focus_state_of_target [of "NumId 3" "exampleNode (NumId 1) 0 0 200 200 None
          [exampleNode (NumId 2) 10 10 50 50 None [exampleNode (NumId 3) 5 5 20 20 None []]]"]
  by (simp add: exampleNode_def)

text \<open>
  Claim C6 as stated fails when the target is the root's own id and the root is not at
  the origin: \<open>focusedRoot\<close> is then the root with its origin zeroed, which is neither
  \<open>actualRoot\<close> itself with offset (0,0) nor a copy of a proper descendant.
\<close>

theorem focus_invariant_counterexample:
  "\<not> ((focusedRoot (caclulateFocusState (exampleNode (NumId 1) 5 5 10 10 None []) (Some (NumId 1)))
         = actualRoot (caclulateFocusState (exampleNode (NumId 1) 5 5 10 10 None []) (Some (NumId 1)))
        \<and> focusedRootGlobalOffset
            (caclulateFocusState (exampleNode (NumId 1) 5 5 10 10 None []) (Some (NumId 1)))
          = \<lparr>x = 0, y = 0\<rparr>)
      \<or> (\<exists>d \<in> set (descendants (actualRoot
              (caclulateFocusState (exampleNode (NumId 1) 5 5 10 10 None []) (Some (NumId 1))))).
            focusedRoot (caclulateFocusState (exampleNode (NumId 1) 5 5 10 10 None [])
              (Some (NumId 1))) = zeroBoundsOrigin d))"
  by (simp add: exampleNode_def caclulateFocusState_def descendants_def)

text \<open>
  Claim C6, amended. The state returned is the trivial one, or the target is the
  root's own id and \<open>focusedRoot\<close> is the root with \<open>bounds.x\<close> and \<open>bounds.y\<close> zeroed
  (the offset being the root's own \<open>bounds.x\<close> and \<open>bounds.y\<close>), or \<open>focusedRoot\<close> is a
  proper descendant of \<open>actualRoot\<close> with \<open>bounds.x\<close> and \<open>bounds.y\<close> zeroed.
\<close>

theorem focus_invariant:
  "caclulateFocusState root target =
     \<lparr>actualRoot = root, focusedRoot = root, focusedRootGlobalOffset = \<lparr>x = 0, y = 0\<rparr>\<rparr>
   \<or> (target = Some (id root) \<and>
       caclulateFocusState root target =
         \<lparr>actualRoot = root, focusedRoot = zeroBoundsOrigin root,
          focusedRootGlobalOffset = \<lparr>x = x (bounds root), y = y (bounds root)\<rparr>\<rparr>)
   \<or> (\<exists>d \<in> set (descendants root).
         actualRoot (caclulateFocusState root target) = root \<and>
         focusedRoot (caclulateFocusState root target) = zeroBoundsOrigin d)"
proof (cases target)
  case None
  then show ?thesis by (simp add: caclulateFocusState_def)
next
  case (Some t)
  show ?thesis
  proof (cases "t \<in> id ` set (subtree root)")
    case False
    with Some find_absent(1) [of t root] show ?thesis
      by (simp add: caclulateFocusState_def)
  next
    case True
    show ?thesis
    proof (cases "id root = t")
      case True
      with Some show ?thesis
        by (cases root) (simp add: caclulateFocusState_def)
    next
      case False
      from find_present(1) [OF True, of "\<lparr>x = 0, y = 0\<rparr>" root]
      obtain p where p: "p \<in> set (paths root)" and l: "id (last p) = t"
        and r: "findNodeAndGlobalOffsetRec root \<lparr>x = 0, y = 0\<rparr> root t =
           Some \<lparr>actualRoot = root, focusedRoot = zeroBoundsOrigin (last p),
             focusedRootGlobalOffset =
               \<lparr>x = 0 + x (pathOffset p), y = 0 + y (pathOffset p)\<rparr>\<rparr>"
        by auto
      from paths_descendants [OF p] l False have "last p \<in> set (descendants root)"
        by auto
      with r Some show ?thesis
        by (auto simp: caclulateFocusState_def)
    qed
  qed
qed

theorem focus_invariant_witness:
  "caclulateFocusState (exampleNode (NumId 1) 5 5 10 10 None []) (Some (NumId 1)) =
     \<lparr>actualRoot = exampleNode (NumId 1) 5 5 10 10 None [],
      focusedRoot = exampleNode (NumId 1) 0 0 10 10 None [],
      focusedRootGlobalOffset = \<lparr>x = 5, y = 5\<rparr>\<rparr>"
  using focus_invariant [of "exampleNode (NumId 1) 5 5 10 10 None []" "Some (NumId 1)"]
  by (simp add: exampleNode_def descendants_def caclulateFocusState_def)

section \<open>Projection\<close>

lemma those_map_Some:
  "those (map f es) = Some rs \<longleftrightarrow> list_all2 (\<lambda>e r. f e = Some r) es rs"
  by (induction es arbitrary: rs) (auto split: option.splits simp: list_all2_Cons1)

lemma those_map_log:
  "those (map (\<lambda>c. case nodes c of None \<Rightarrow> Some None | Some child \<Rightarrow> map_option Some (g child)) cs)
     = None \<Longrightarrow>
   those (map (\<lambda>c. case nodes c of None \<Rightarrow> None | Some child \<Rightarrow> g child) cs) = None"
  by (induction cs) (auto split: option.splits)

lemma uiNodeToNestedNode_Suc:
  "uiNodeToNestedNode (Suc fuel) nodes node =
     (case those (map (\<lambda>childId. case nodes childId of
                         None \<Rightarrow> None
                       | Some child \<Rightarrow> uiNodeToNestedNode fuel nodes child)
                    (resolvingChildren nodes node)) of
        None \<Rightarrow> None
      | Some cs \<Rightarrow>
          Some (NestedNode (ClientNode.id node) (ClientNode.name node)
                  (ClientNode.attributes node) cs (ClientNode.bounds node)
                  (ClientNode.tags node)
                  (case ClientNode.activeChild node of
                     None \<Rightarrow> None
                   | Some a \<Rightarrow>
                       if truthy a then Some (indexOf (resolvingChildren nodes node) a)
                       else None)))"
  using those_map_log [where nodes = nodes and g = "uiNodeToNestedNode fuel nodes"
      and cs = "resolvingChildren nodes node"]
  by (auto simp: Let_def resolvingChildren_def split: option.splits)

declare uiNodeToNestedNode.simps(2) [simp del]

lemma indexOfFrom_absent: "a \<notin> set es \<Longrightarrow> indexOfFrom es a k = - 1"
  by (induction es arbitrary: k) auto

lemma indexOfFrom_present:
  "a \<in> set es \<Longrightarrow>
     \<exists>j < length es. indexOfFrom es a k = k + int j \<and> es ! j = a \<and> (\<forall>l < j. es ! l \<noteq> a)"
proof (induction es arbitrary: k)
  case Nil
  then show ?case by simp
next
  case (Cons e es)
  show ?case
  proof (cases "e = a")
    case True
    then show ?thesis by (intro exI [of _ 0]) simp
  next
    case False
    with Cons.prems have "a \<in> set es" by simp
    from Cons.IH [OF this, of "k + 1"]
    obtain j where j: "j < length es" "indexOfFrom es a (k + 1) = k + 1 + int j"
      "es ! j = a" "\<forall>l < j. es ! l \<noteq> a"
      by auto
    with False show ?thesis
      by (intro exI [of _ "Suc j"]) (auto simp: nth_Cons split: nat.splits)
  qed
qed

text \<open>
  Claim C1, amended. In the node projected from a raw node, \<open>activeChildIdx\<close> is
  \<open>undefined\<close> when \<open>activeChild\<close> is unset; when \<open>activeChild\<close> is a truthy id it is
  the first position of that id in the filtered children list if the id occurs there,
  and \<open>-1\<close> if it does not (a dangling id among them). The projected children list is
  as long as the filtered list, so a position found is a position in it.
\<close>

theorem active_child_index:
  "uiNodeToNestedNode fuel nodes node = Some t \<Longrightarrow>
     length (children t) = length (resolvingChildren nodes node) \<and>
     (ClientNode.activeChild node = None \<longrightarrow> activeChildIdx t = None) \<and>
     (\<forall>a. ClientNode.activeChild node = Some a \<and> truthy a \<longrightarrow>
        (a \<in> set (resolvingChildren nodes node) \<longrightarrow>
           (\<exists>k < length (resolvingChildren nodes node).
              activeChildIdx t = Some (int k) \<and> resolvingChildren nodes node ! k = a \<and>
              (\<forall>j < k. resolvingChildren nodes node ! j \<noteq> a))) \<and>
        (a \<notin> set (resolvingChildren nodes node) \<longrightarrow> activeChildIdx t = Some (- 1)))"
proof (cases fuel)
  case 0
  assume "uiNodeToNestedNode fuel nodes node = Some t"
  with 0 show ?thesis by simp
next
  case (Suc n)
  assume "uiNodeToNestedNode fuel nodes node = Some t"
  with Suc obtain cs where
    cs: "those (map (\<lambda>childId. case nodes childId of
                         None \<Rightarrow> None
                       | Some child \<Rightarrow> uiNodeToNestedNode n nodes child)
                    (resolvingChildren nodes node)) = Some cs"
    and t: "t = NestedNode (ClientNode.id node) (ClientNode.name node)
                  (ClientNode.attributes node) cs (ClientNode.bounds node)
                  (ClientNode.tags node)
                  (case ClientNode.activeChild node of
                     None \<Rightarrow> None
                   | Some a \<Rightarrow>
                       if truthy a then Some (indexOf (resolvingChildren nodes node) a)
                       else None)"
    by (auto simp: uiNodeToNestedNode_Suc split: option.splits)
  from cs have len: "length cs = length (resolvingChildren nodes node)"
    by (auto simp: those_map_Some dest: list_all2_lengthD)
  show ?thesis
    using t len indexOfFrom_present [of _ "resolvingChildren nodes node" 0]
    by (auto simp: indexOf_def indexOfFrom_absent)
qed

text \<open>
  Claim C1 as stated fails: raw node A lists the children B and ghost, ghost is not in
  the map and is also the \<open>activeChild\<close>. The projected A has \<open>activeChildIdx = -1\<close>,
  not \<open>undefined\<close>.
\<close>

theorem active_child_index_counterexample:
  "map_option (map_option activeChildIdx)
     (toNestedNode (Suc (Suc 0)) (StrId ''A'') danglingActiveMap) = Some (Some (Some (- 1)))"
  by (simp add: toNestedNode_def danglingActiveMap_def exampleRaw_def uiNodeToNestedNode_Suc
        resolvingChildren_def indexOf_def)

text \<open>
  The example of the specification: A has the children B and C and \<open>activeChild\<close> C;
  the projected A has \<open>activeChildIdx = 1\<close>.
\<close>

theorem active_child_index_witness:
  "uiNodeToNestedNode (Suc (Suc 0)) activeChildMap
      (exampleRaw (StrId ''A'') None 0 0 100 100 (Some (StrId ''C'')) [StrId ''B'', StrId ''C''])
     = Some (exampleNode (StrId ''A'') 0 0 100 100 (Some 1)
          [exampleNode (StrId ''B'') 0 0 10 10 None [],
           exampleNode (StrId ''C'') 0 0 10 10 None []])
   \<and> activeChildIdx (exampleNode (StrId ''A'') 0 0 100 100 (Some 1)
          [exampleNode (StrId ''B'') 0 0 10 10 None [],
           exampleNode (StrId ''C'') 0 0 10 10 None []]) = Some 1"
proof -
  have h: "uiNodeToNestedNode (Suc (Suc 0)) activeChildMap
      (exampleRaw (StrId ''A'') None 0 0 100 100 (Some (StrId ''C'')) [StrId ''B'', StrId ''C''])
     = Some (exampleNode (StrId ''A'') 0 0 100 100 (Some 1)
          [exampleNode (StrId ''B'') 0 0 10 10 None [],
           exampleNode (StrId ''C'') 0 0 10 10 None []])"
    by (simp add: activeChildMap_def exampleRaw_def exampleNode_def uiNodeToNestedNode_Suc
          resolvingChildren_def indexOf_def)
  from active_child_index [OF h] h show ?thesis
    by (simp add: exampleNode_def)
qed

text \<open>
  Claim C2 fails on the code. A map whose only node names an \<open>activeChild\<close> that is not
  among its children projects to a node with \<open>activeChildIdx = -1\<close>; \<open>hitTest\<close> on
  that tree reads \<open>node.children[-1]\<close>, recurses on \<open>undefined\<close> and throws.
\<close>

theorem hit_test_stale_active_child:
  "toNestedNode (Suc 0) (NumId 1) staleActiveMap =
     Some (Some (exampleNode (NumId 1) 0 0 10 10 (Some (- 1)) []))
   \<and> hitTest (exampleNode (NumId 1) 0 0 10 10 (Some (- 1)) []) \<lparr>x = 0, y = 0\<rparr> = None"
  by (simp add: toNestedNode_def staleActiveMap_def exampleRaw_def exampleNode_def
        uiNodeToNestedNode_Suc resolvingChildren_def indexOf_def hitTest_def
        candidateChildren_def arrayGet_def)

lemma uiNodeToNestedNode_projection:
  "uiNodeToNestedNode fuel nodes node = Some t \<Longrightarrow> projectionOf nodes node t"
proof (induction fuel arbitrary: node t)
  case 0
  then show ?case by simp
next
  case (Suc fuel)
  from Suc.prems obtain cs where
    cs: "list_all2 (\<lambda>childId r. (case nodes childId of
                         None \<Rightarrow> None
                       | Some child \<Rightarrow> uiNodeToNestedNode fuel nodes child) = Some r)
           (resolvingChildren nodes node) cs"
    and t: "t = NestedNode (ClientNode.id node) (ClientNode.name node)
                  (ClientNode.attributes node) cs (ClientNode.bounds node)
                  (ClientNode.tags node)
                  (case ClientNode.activeChild node of
                     None \<Rightarrow> None
                   | Some a \<Rightarrow>
                       if truthy a then Some (indexOf (resolvingChildren nodes node) a)
                       else None)"
    by (auto simp: uiNodeToNestedNode_Suc those_map_Some split: option.splits)
  from cs have "list_all2 (\<lambda>childId c. case nodes childId of
                               None \<Rightarrow> False
                             | Some child \<Rightarrow> projectionOf nodes child c)
       (resolvingChildren nodes node) cs"
    by (rule list_all2_mono) (auto split: option.splits dest: Suc.IH)
  with t show ?case by simp
qed

lemma uiNodeToNestedNode_mono:
  "uiNodeToNestedNode n nodes node = Some t \<Longrightarrow> n \<le> m \<Longrightarrow>
     uiNodeToNestedNode m nodes node = Some t"
proof (induction n arbitrary: m node t)
  case 0
  then show ?case by simp
next
  case (Suc n)
  from Suc.prems(2) obtain m' where m: "m = Suc m'" and le: "n \<le> m'"
    by (cases m) auto
  from Suc.prems(1) obtain cs where
    cs: "list_all2 (\<lambda>childId r. (case nodes childId of
                         None \<Rightarrow> None
                       | Some child \<Rightarrow> uiNodeToNestedNode n nodes child) = Some r)
           (resolvingChildren nodes node) cs"
    and t: "t = NestedNode (ClientNode.id node) (ClientNode.name node)
                  (ClientNode.attributes node) cs (ClientNode.bounds node)
                  (ClientNode.tags node)
                  (case ClientNode.activeChild node of
                     None \<Rightarrow> None
                   | Some a \<Rightarrow>
                       if truthy a then Some (indexOf (resolvingChildren nodes node) a)
                       else None)"
    by (auto simp: uiNodeToNestedNode_Suc those_map_Some split: option.splits)
  from cs have "list_all2 (\<lambda>childId r. (case nodes childId of
                         None \<Rightarrow> None
                       | Some child \<Rightarrow> uiNodeToNestedNode m' nodes child) = Some r)
           (resolvingChildren nodes node) cs"
    by (rule list_all2_mono) (auto split: option.splits intro: Suc.IH [OF _ le])
  then have "those (map (\<lambda>childId. case nodes childId of
                         None \<Rightarrow> None
                       | Some child \<Rightarrow> uiNodeToNestedNode m' nodes child)
                    (resolvingChildren nodes node)) = Some cs"
    by (simp add: those_map_Some)
  with t m show ?case by (simp add: uiNodeToNestedNode_Suc)
qed

lemma those_map_total:
  "(\<forall>e \<in> set es. \<exists>r. f e = Some r) \<Longrightarrow> \<exists>rs. those (map f es) = Some rs"
  by (induction es) auto

lemma uniform_fuel:
  assumes "\<forall>c \<in> set cs. \<exists>fuel t. uiNodeToNestedNode fuel nodes (g c) = Some t"
  shows "\<exists>fuel. \<forall>c \<in> set cs. \<exists>t. uiNodeToNestedNode fuel nodes (g c) = Some t"
  using assms
proof (induction cs)
  case Nil
  then show ?case by simp
next
  case (Cons c cs)
  then obtain f1 f2 t where f1: "uiNodeToNestedNode f1 nodes (g c) = Some t"
    and f2: "\<forall>c \<in> set cs. \<exists>t. uiNodeToNestedNode f2 nodes (g c) = Some t"
    by auto
  have "uiNodeToNestedNode (max f1 f2) nodes (g c) = Some t"
    using f1 by (rule uiNodeToNestedNode_mono) simp
  moreover have "\<exists>t. uiNodeToNestedNode (max f1 f2) nodes (g c') = Some t"
    if "c' \<in> set cs" for c'
  proof -
    from f2 that obtain t' where "uiNodeToNestedNode f2 nodes (g c') = Some t'"
      by blast
    then have "uiNodeToNestedNode (max f1 f2) nodes (g c') = Some t'"
      by (rule uiNodeToNestedNode_mono) simp
    then show ?thesis ..
  qed
  ultimately have
    "\<forall>c' \<in> set (c # cs). \<exists>t. uiNodeToNestedNode (max f1 f2) nodes (g c') = Some t"
    by simp
  then show ?case ..
qed

lemma uiNodeToNestedNode_returns:
  assumes "wf R"
    and step: "\<And>c p. (c, p) \<in> childRel nodes \<Longrightarrow> P p \<Longrightarrow> (c, p) \<in> R \<and> P c"
  shows "P i \<Longrightarrow> nodes i = Some node \<Longrightarrow>
           \<exists>fuel t. uiNodeToNestedNode fuel nodes node = Some t"
  using assms(1)
proof (induction i arbitrary: node rule: wf_induct_rule)
  case (less i)
  have "\<forall>c \<in> set (resolvingChildren nodes node).
          \<exists>fuel t. uiNodeToNestedNode fuel nodes (the (nodes c)) = Some t"
  proof
    fix c
    assume c: "c \<in> set (resolvingChildren nodes node)"
    then obtain child where child: "nodes c = Some child"
      by (auto simp: resolvingChildren_def)
    from c less.prems have "(c, i) \<in> childRel nodes"
      by (auto simp: childRel_def resolvingChildren_def)
    from step [OF this less.prems(1)] have "(c, i) \<in> R" "P c"
      by simp_all
    from less.IH [OF this child] child
    show "\<exists>fuel t. uiNodeToNestedNode fuel nodes (the (nodes c)) = Some t"
      by simp
  qed
  from uniform_fuel [OF this] obtain fuel where
    fuel: "\<forall>c \<in> set (resolvingChildren nodes node).
             \<exists>t. uiNodeToNestedNode fuel nodes (the (nodes c)) = Some t"
    by blast
  have "\<forall>c \<in> set (resolvingChildren nodes node).
          \<exists>r. (case nodes c of None \<Rightarrow> None
                | Some child \<Rightarrow> uiNodeToNestedNode fuel nodes child) = Some r"
  proof
    fix c
    assume c: "c \<in> set (resolvingChildren nodes node)"
    then obtain child where "nodes c = Some child"
      by (auto simp: resolvingChildren_def)
    with fuel c show "\<exists>r. (case nodes c of None \<Rightarrow> None
                | Some child \<Rightarrow> uiNodeToNestedNode fuel nodes child) = Some r"
      by force
  qed
  from those_map_total [OF this] obtain rs where
    "those (map (\<lambda>childId. case nodes childId of
                         None \<Rightarrow> None
                       | Some child \<Rightarrow> uiNodeToNestedNode fuel nodes child)
                    (resolvingChildren nodes node)) = Some rs"
    by blast
  then have "\<exists>t. uiNodeToNestedNode (Suc fuel) nodes node = Some t"
    by (simp add: uiNodeToNestedNode_Suc)
  then show ?case by blast
qed

lemma those_map_None: "e \<in> set es \<Longrightarrow> f e = None \<Longrightarrow> those (map f es) = None"
  by (induction es) (auto split: option.splits)

lemma diverges_parent:
  assumes "(c, p) \<in> childRel nodes" and "nodes c = Some child"
    and "uiNodeToNestedNode fuel nodes child = None" and "nodes p = Some node"
  shows "uiNodeToNestedNode (Suc fuel) nodes node = None"
proof -
  from assms(1,4) have "c \<in> set (resolvingChildren nodes node)"
    by (auto simp: childRel_def resolvingChildren_def)
  moreover from assms(2,3)
  have "(case nodes c of None \<Rightarrow> None
         | Some child \<Rightarrow> uiNodeToNestedNode fuel nodes child) = None"
    by simp
  ultimately have "those (map (\<lambda>childId. case nodes childId of
                         None \<Rightarrow> None
                       | Some child \<Rightarrow> uiNodeToNestedNode fuel nodes child)
                    (resolvingChildren nodes node)) = None"
    by (rule those_map_None)
  then show ?thesis by (simp add: uiNodeToNestedNode_Suc)
qed

lemma on_cycle_diverges:
  "(i, i) \<in> (childRel nodes)\<^sup>+ \<Longrightarrow> nodes i = Some node \<Longrightarrow>
     uiNodeToNestedNode fuel nodes node = None"
proof (induction fuel arbitrary: i node)
  case 0
  then show ?case by simp
next
  case (Suc fuel)
  from tranclD2 [OF Suc.prems(1)] obtain c where
    ic: "(i, c) \<in> (childRel nodes)\<^sup>*" and ci: "(c, i) \<in> childRel nodes"
    by blast
  from ci ic have cc: "(c, c) \<in> (childRel nodes)\<^sup>+"
    by (rule rtrancl_into_trancl2)
  from ci obtain child where child: "nodes c = Some child"
    by (auto simp: childRel_def)
  from Suc.IH [OF cc child] have "uiNodeToNestedNode fuel nodes child = None" .
  from diverges_parent [OF ci child this Suc.prems(2)] show ?case .
qed

lemma diverges_up:
  assumes "(i, rootId) \<in> (childRel nodes)\<^sup>*"
    and "nodes i \<noteq> None"
    and "\<And>fuel node. nodes i = Some node \<Longrightarrow> uiNodeToNestedNode fuel nodes node = None"
  shows "nodes rootId \<noteq> None \<and>
         (\<forall>fuel node. nodes rootId = Some node \<longrightarrow> uiNodeToNestedNode fuel nodes node = None)"
  using assms
proof (induction rule: rtrancl_induct)
  case base
  then show ?case by blast
next
  case (step p q)
  from step.IH [OF step.prems] obtain child where child: "nodes p = Some child"
    and div: "\<And>fuel. uiNodeToNestedNode fuel nodes child = None"
    by auto
  from step.hyps(2) obtain node where node: "nodes q = Some node"
    by (auto simp: childRel_def)
  have "uiNodeToNestedNode fuel nodes node = None" for fuel
  proof (cases fuel)
    case 0
    then show ?thesis by simp
  next
    case (Suc n)
    from diverges_parent [OF step.hyps(2) child div node] Suc show ?thesis by simp
  qed
  with node show ?case by simp
qed

lemma finite_childRel: "finite (dom nodes) \<Longrightarrow> finite (childRel nodes)"
  by (rule finite_subset [of _ "dom nodes \<times> dom nodes"]) (auto simp: childRel_def)

lemma reachable_part_wf:
  assumes "finite (dom nodes)" and "\<not> cycleReachable nodes rootId"
  shows "wf {(c, p). (c, p) \<in> childRel nodes \<and> (p, rootId) \<in> (childRel nodes)\<^sup>*}"
    (is "wf ?R")
proof (rule finite_acyclic_wf)
  have sub: "?R \<subseteq> childRel nodes" by auto
  from finite_childRel [OF assms(1)] sub show "finite ?R"
    by (rule rev_finite_subset)
  show "acyclic ?R"
    unfolding acyclic_def
  proof (intro allI notI)
    fix i
    assume cyc: "(i, i) \<in> ?R\<^sup>+"
    from trancl_mono [OF cyc sub] have "(i, i) \<in> (childRel nodes)\<^sup>+" .
    moreover from tranclD2 [OF cyc] have "(i, rootId) \<in> (childRel nodes)\<^sup>*"
      by auto
    ultimately have "cycleReachable nodes rootId"
      by (auto simp: cycleReachable_def)
    with assms(2) show False by simp
  qed
qed

text \<open>
  Claim C7, amended. On a finite map, \<open>toNestedNode\<close> returns \<open>undefined\<close> when the
  root id is absent. When the root id is present and no id that the root reaches along
  resolving child links lies on a cycle of such links, \<open>toNestedNode\<close> returns (some
  depth of recursion is enough, and no depth gives another result) a tree that is the
  projection of the root's raw node: at every node the children are the projections, in
  order, of exactly the child ids that resolve in the map. When the root reaches a
  cycle, \<open>toNestedNode\<close> returns nothing at any depth. A cycle that the root does not
  reach is of no consequence.
\<close>

theorem projection_children:
  assumes "finite (dom nodes)"
  shows "(nodes rootId = None \<longrightarrow> (\<forall>fuel. toNestedNode fuel rootId nodes = Some None)) \<and>
         (\<forall>root. nodes rootId = Some root \<and> \<not> cycleReachable nodes rootId \<longrightarrow>
            (\<exists>fuel t. toNestedNode fuel rootId nodes = Some (Some t) \<and>
               projectionOf nodes root t \<and>
               (\<forall>fuel' r. toNestedNode fuel' rootId nodes = Some r \<longrightarrow> r = Some t))) \<and>
         (cycleReachable nodes rootId \<longrightarrow> (\<forall>fuel. toNestedNode fuel rootId nodes = None))"
proof (intro conjI allI impI)
  fix fuel
  assume "nodes rootId = None"
  then show "toNestedNode fuel rootId nodes = Some None"
    by (simp add: toNestedNode_def)
next
  fix root
  assume "nodes rootId = Some root \<and> \<not> cycleReachable nodes rootId"
  then have root: "nodes rootId = Some root" and nc: "\<not> cycleReachable nodes rootId"
    by simp_all
  have "\<exists>fuel t. uiNodeToNestedNode fuel nodes root = Some t"
  proof (rule uiNodeToNestedNode_returns
      [where R = "{(c, p). (c, p) \<in> childRel nodes \<and> (p, rootId) \<in> (childRel nodes)\<^sup>*}"
         and P = "\<lambda>i. (i, rootId) \<in> (childRel nodes)\<^sup>*" and nodes = nodes and i = rootId])
    show "wf {(c, p). (c, p) \<in> childRel nodes \<and> (p, rootId) \<in> (childRel nodes)\<^sup>*}"
      by (rule reachable_part_wf [OF assms nc])
    show "(c, p) \<in> {(c, p). (c, p) \<in> childRel nodes \<and> (p, rootId) \<in> (childRel nodes)\<^sup>*}
        \<and> (c, rootId) \<in> (childRel nodes)\<^sup>*"
      if "(c, p) \<in> childRel nodes" "(p, rootId) \<in> (childRel nodes)\<^sup>*" for c p
      using that by (auto intro: converse_rtrancl_into_rtrancl)
    show "(rootId, rootId) \<in> (childRel nodes)\<^sup>*" by simp
    show "nodes rootId = Some root" by (rule root)
  qed
  then obtain fuel t where t: "uiNodeToNestedNode fuel nodes root = Some t"
    by blast
  have "\<forall>fuel' r. toNestedNode fuel' rootId nodes = Some r \<longrightarrow> r = Some t"
  proof (intro allI impI)
    fix fuel' r
    assume "toNestedNode fuel' rootId nodes = Some r"
    with root obtain t' where t': "uiNodeToNestedNode fuel' nodes root = Some t'"
      and r: "r = Some t'"
      by (auto simp: toNestedNode_def)
    from uiNodeToNestedNode_mono [OF t, of "max fuel fuel'"]
      uiNodeToNestedNode_mono [OF t', of "max fuel fuel'"]
    have "t' = t" by simp
    with r show "r = Some t" by simp
  qed
  with t root uiNodeToNestedNode_projection [OF t]
  show "\<exists>fuel t. toNestedNode fuel rootId nodes = Some (Some t) \<and>
               projectionOf nodes root t \<and>
               (\<forall>fuel' r. toNestedNode fuel' rootId nodes = Some r \<longrightarrow> r = Some t)"
    by (intro exI [of _ fuel] exI [of _ t]) (simp add: toNestedNode_def)
next
  fix fuel
  assume "cycleReachable nodes rootId"
  then obtain i where reach: "(i, rootId) \<in> (childRel nodes)\<^sup>*"
    and cyc: "(i, i) \<in> (childRel nodes)\<^sup>+"
    by (auto simp: cycleReachable_def)
  from tranclD [OF cyc] have present: "nodes i \<noteq> None"
    by (auto simp: childRel_def)
  from diverges_up [OF reach present on_cycle_diverges [OF cyc]]
  show "toNestedNode fuel rootId nodes = None"
    by (auto simp: toNestedNode_def)
qed

text \<open>
  Claim C7 as stated, for every map, fails on a map with a cycle: a node that lists
  itself as a child is present, and \<open>toNestedNode\<close> returns nothing at any depth.
\<close>

theorem projection_children_counterexample:
  "\<forall>fuel. toNestedNode fuel (NumId 1) selfLoopMap = None"
proof
  fix fuel
  have "uiNodeToNestedNode fuel selfLoopMap
          (exampleRaw (NumId 1) None 0 0 10 10 None [NumId 1]) = None"
    by (induction fuel)
       (simp_all add: uiNodeToNestedNode_Suc resolvingChildren_def selfLoopMap_def
          exampleRaw_def)
  then show "toNestedNode fuel (NumId 1) selfLoopMap = None"
    by (simp add: toNestedNode_def selfLoopMap_def)
qed

lemma childRel_strayCycleMap:
  "childRel strayCycleMap = {(StrId ''B'', StrId ''A''), (StrId ''S'', StrId ''S'')}"
  by (auto simp: childRel_def strayCycleMap_def exampleRaw_def split: if_splits)

lemma strayCycleMap_reach_A:
  "(i, StrId ''A'') \<in> (childRel strayCycleMap)\<^sup>* \<Longrightarrow> i = StrId ''A'' \<or> i = StrId ''B''"
  by (induction rule: converse_rtrancl_induct) (auto simp: childRel_strayCycleMap)

lemma strayCycleMap_no_cycle_A: "\<not> cycleReachable strayCycleMap (StrId ''A'')"
proof
  assume "cycleReachable strayCycleMap (StrId ''A'')"
  then obtain i where r: "(i, StrId ''A'') \<in> (childRel strayCycleMap)\<^sup>*"
    and c: "(i, i) \<in> (childRel strayCycleMap)\<^sup>+"
    by (auto simp: cycleReachable_def)
  from strayCycleMap_reach_A [OF r] show False
  proof
    assume "i = StrId ''A''"
    with tranclD [OF c] show False by (auto simp: childRel_strayCycleMap)
  next
    assume "i = StrId ''B''"
    with tranclD2 [OF c] show False by (auto simp: childRel_strayCycleMap)
  qed
qed

text \<open>
  A map with the nodes A (children B and ghost, ghost dangling), B, and S, which lists
  itself as a child: from A the projection is returned although the map has a cycle,
  from S nothing is returned, and Z is absent.
\<close>

theorem projection_children_witness:
  "finite (dom strayCycleMap)
   \<and> toNestedNode (Suc (Suc 0)) (StrId ''Z'') strayCycleMap = Some None
   \<and> \<not> cycleReachable strayCycleMap (StrId ''A'')
   \<and> toNestedNode (Suc (Suc 0)) (StrId ''A'') strayCycleMap =
       Some (Some (exampleNode (StrId ''A'') 0 0 100 100 (Some (- 1))
         [exampleNode (StrId ''B'') 0 0 10 10 None []]))
   \<and> projectionOf strayCycleMap
       (exampleRaw (StrId ''A'') None 0 0 100 100 (Some (StrId ''ghost''))
          [StrId ''B'', StrId ''ghost''])
       (exampleNode (StrId ''A'') 0 0 100 100 (Some (- 1))
         [exampleNode (StrId ''B'') 0 0 10 10 None []])
   \<and> cycleReachable strayCycleMap (StrId ''S'')
   \<and> toNestedNode (Suc (Suc 0)) (StrId ''S'') strayCycleMap = None"
proof -
  have f: "finite (dom strayCycleMap)"
    by (simp add: strayCycleMap_def)
  have z: "strayCycleMap (StrId ''Z'') = None"
    by (simp add: strayCycleMap_def)
  have r: "strayCycleMap (StrId ''A'') =
      Some (exampleRaw (StrId ''A'') None 0 0 100 100 (Some (StrId ''ghost''))
          [StrId ''B'', StrId ''ghost''])"
    by (simp add: strayCycleMap_def)
  have c: "toNestedNode (Suc (Suc 0)) (StrId ''A'') strayCycleMap =
       Some (Some (exampleNode (StrId ''A'') 0 0 100 100 (Some (- 1))
         [exampleNode (StrId ''B'') 0 0 10 10 None []]))"
    by (simp add: toNestedNode_def strayCycleMap_def exampleRaw_def exampleNode_def
          uiNodeToNestedNode_Suc resolvingChildren_def indexOf_def)
  have s: "cycleReachable strayCycleMap (StrId ''S'')"
    unfolding cycleReachable_def
    by (intro exI [of _ "StrId ''S''"]) (simp add: childRel_strayCycleMap r_into_trancl')
  from projection_children [OF f, of "StrId ''Z''"] z
  have "toNestedNode (Suc (Suc 0)) (StrId ''Z'') strayCycleMap = Some None"
    by blast
  moreover from projection_children [OF f, of "StrId ''A''"] r c strayCycleMap_no_cycle_A
  have "projectionOf strayCycleMap
       (exampleRaw (StrId ''A'') None 0 0 100 100 (Some (StrId ''ghost''))
          [StrId ''B'', StrId ''ghost''])
       (exampleNode (StrId ''A'') 0 0 100 100 (Some (- 1))
         [exampleNode (StrId ''B'') 0 0 10 10 None []])"
    by force
  moreover from projection_children [OF f, of "StrId ''S''"] s
  have "toNestedNode (Suc (Suc 0)) (StrId ''S'') strayCycleMap = None"
    by blast
  ultimately show ?thesis using f c s strayCycleMap_no_cycle_A by blast
qed

section \<open>Hit testing\<close>

lemma selectActive_map: "selectActive ai (map f es) = map f (selectActive ai es)"
  by (auto simp: selectActive_def arrayGet_def split: option.splits)

lemma candidateChildren_select:
  "candidateChildren node = map Some ns \<Longrightarrow>
     ns = selectActive (activeChildIdx node) (children node)"
  by (cases "activeChildIdx node")
     (auto simp: candidateChildren_def selectActive_def arrayGet_def map_eq_Cons_conv
        inj_map_eq_map [OF inj_Some] split: if_splits)

lemma reportedHit_unfold:
  "reportedHit node m \<longleftrightarrow>
     boundsContainsCoordinate (bounds node) m \<and>
     (\<forall>c \<in> set (selectActive (activeChildIdx node) (children node)).
        \<not> reportedHit c (offsetCoordinate m (bounds node)))"
  by (cases node) (auto simp: selectActive_map)

lemma reached_unfold:
  "reached node m =
     (node, m) # concat (map (\<lambda>c. reached c (offsetCoordinate m (bounds node)))
                     (selectActive (activeChildIdx node) (children node)))"
  by (cases node) (simp add: selectActive_map)

lemma hitsPostOrder_unfold:
  "hitsPostOrder node m =
     concat (map (\<lambda>c. hitsPostOrder c (offsetCoordinate m (bounds node)))
               (selectActive (activeChildIdx node) (children node)))
       @ (if reportedHit node m then [node] else [])"
  by (cases node) (simp add: selectActive_map)

lemma hitTestRec_pure:
  "node = Some n \<Longrightarrow> hitTestRec node m res = Some (h, res') \<Longrightarrow>
     h = reportedHit n m \<and> res' = res @ hitsPostOrder n m"
  "hitTestLoop cs m ch res = Some (h, res') \<Longrightarrow>
     \<exists>ns. cs = map Some ns \<and> h = (ch \<or> (\<exists>c \<in> set ns. reportedHit c m)) \<and>
          res' = res @ concat (map (\<lambda>c. hitsPostOrder c m) ns)"
proof (induction node m res and cs m ch res arbitrary: n h res' and h res'
        rule: hitTestRec_hitTestLoop.induct)
  case (1 mouseCoordinate res)
  then show ?case by simp
next
  case (2 node mouseCoordinate res)
  from "2.prems" have n: "n = node" by simp
  from "2.prems" obtain childHit r where
    loop: "hitTestLoop (candidateChildren node)
             (offsetCoordinate mouseCoordinate (bounds node)) False res = Some (childHit, r)"
    and h: "h = (boundsContainsCoordinate (bounds node) mouseCoordinate \<and> \<not> childHit)"
    and r: "res' = (if h then r @ [node] else r)"
    by (auto simp: Let_def split: option.splits)
  from "2.IH" [OF refl refl refl loop] obtain ns where
    ns: "candidateChildren node = map Some ns"
    and ch: "childHit = (\<exists>c \<in> set ns.
               reportedHit c (offsetCoordinate mouseCoordinate (bounds node)))"
    and r': "r = res @ concat (map (\<lambda>c. hitsPostOrder c
               (offsetCoordinate mouseCoordinate (bounds node))) ns)"
    by auto
  from candidateChildren_select [OF ns]
  have sel: "ns = selectActive (activeChildIdx node) (children node)" .
  from h ch sel have "h = reportedHit node mouseCoordinate"
    by (subst reportedHit_unfold) simp
  moreover from this r r' sel have "res' = res @ hitsPostOrder node mouseCoordinate"
    by (subst hitsPostOrder_unfold) simp
  ultimately show ?case using n by simp
next
  case (3 offsetMouseCoord childHit res)
  then show ?case by simp
next
  case (4 child rest offsetMouseCoord childHit res)
  from "4.prems" obtain h1 r1 where
    c: "hitTestRec child offsetMouseCoord res = Some (h1, r1)"
    and l: "hitTestLoop rest offsetMouseCoord (h1 \<or> childHit) r1 = Some (h, res')"
    by (auto split: option.splits)
  from c obtain n where child: "child = Some n"
    by (cases child) auto
  from "4.IH"(1) [OF child c]
  have h1: "h1 = reportedHit n offsetMouseCoord"
    and r1: "r1 = res @ hitsPostOrder n offsetMouseCoord"
    by auto
  from "4.IH"(2) [OF c refl l] obtain ns where
    "rest = map Some ns"
    "h = ((h1 \<or> childHit) \<or> (\<exists>c \<in> set ns. reportedHit c offsetMouseCoord))"
    "res' = r1 @ concat (map (\<lambda>c. hitsPostOrder c offsetMouseCoord) ns)"
    by auto
  with child h1 r1 show ?case
    by (intro exI [of _ "n # ns"]) auto
qed

lemma set_hitsPostOrder:
  "set (hitsPostOrder node m) = {n. \<exists>q. (n, q) \<in> set (reached node m) \<and> reportedHit n q}"
proof (induction node arbitrary: m)
  case (NestedNode i nm at cs b tg ai)
  have sub: "set (selectActive ai cs) \<subseteq> set cs"
    by (auto simp: selectActive_def arrayGet_def split: option.splits)
  have "set (hitsPostOrder c (offsetCoordinate m b)) =
          {n. \<exists>q. (n, q) \<in> set (reached c (offsetCoordinate m b)) \<and> reportedHit n q}"
    if "c \<in> set (selectActive ai cs)" for c
    using that sub NestedNode.IH by blast
  then show ?case
    by (subst hitsPostOrder_unfold, subst reached_unfold) auto
qed

lemmas hitTest_eval =
  hitTest_def candidateChildren_def arrayGet_def boundsContainsCoordinate_def
  offsetCoordinate_def area_def exampleNode_def

text \<open>
  Claim C4 fails on the code. \<open>hitTestRec\<close> returns whether the node itself was pushed,
  not whether anything below it was hit, so a node learns of a hit child and not of a
  hit grandchild. With a root and one child (the example of the specification) only the
  child is returned. With N at (0,0,100,100), its child C at (10,10,50,50) and C's child
  G at (5,5,10,10), the pointer (20,20) is inside all three: G is hit, C is left out
  because G is hit, and N is returned as well because C was not.
\<close>

theorem hit_test_nested_ancestor:
  "hitTest innermostExample \<lparr>x = 15, y = 15\<rparr> =
     Some [exampleNode (StrId ''C'') 10 10 20 20 None []]
   \<and> hitTest nestedExample \<lparr>x = 20, y = 20\<rparr> =
       Some [exampleNode (StrId ''G'') 5 5 10 10 None [], nestedExample]
   \<and> exampleNode (StrId ''G'') 5 5 10 10 None [] \<in> set (descendants nestedExample)
   \<and> reached nestedExample \<lparr>x = 20, y = 20\<rparr> =
       [(nestedExample, \<lparr>x = 20, y = 20\<rparr>),
        (exampleNode (StrId ''C'') 10 10 50 50 None
           [exampleNode (StrId ''G'') 5 5 10 10 None []], \<lparr>x = 20, y = 20\<rparr>),
        (exampleNode (StrId ''G'') 5 5 10 10 None [], \<lparr>x = 10, y = 10\<rparr>)]
   \<and> boundsContainsCoordinate (bounds nestedExample) \<lparr>x = 20, y = 20\<rparr>
   \<and> boundsContainsCoordinate \<lparr>x = 10, y = 10, width = 50, height = 50\<rparr> \<lparr>x = 20, y = 20\<rparr>
   \<and> boundsContainsCoordinate \<lparr>x = 5, y = 5, width = 10, height = 10\<rparr> \<lparr>x = 10, y = 10\<rparr>"
  by (simp add: innermostExample_def nestedExample_def hitTest_eval descendants_def
        selectActive_def)

lemma reached_subtree: "(e, q) \<in> set (reached node m) \<Longrightarrow> e \<in> set (subtree node)"
proof (induction node arbitrary: m)
  case (NestedNode i nm at cs b tg ai)
  have sub: "set (selectActive ai cs) \<subseteq> set cs"
    by (auto simp: selectActive_def arrayGet_def split: option.splits)
  from NestedNode.prems consider "e = NestedNode i nm at cs b tg ai"
    | c where "c \<in> set (selectActive ai cs)" "(e, q) \<in> set (reached c (offsetCoordinate m b))"
    by (auto simp: selectActive_map)
  then show ?case
  proof cases
    case 1
    then show ?thesis by simp
  next
    case 2
    with sub NestedNode.IH [of c] show ?thesis by auto
  qed
qed

lemma subtree_self: "node \<in> set (subtree node)"
  by (cases node) simp

lemma subtree_trans: "p \<in> set (subtree node) \<Longrightarrow> s \<in> set (subtree p) \<Longrightarrow> s \<in> set (subtree node)"
proof (induction node)
  case (NestedNode i nm at cs b tg ai)
  from NestedNode.prems(1) consider "p = NestedNode i nm at cs b tg ai"
    | c where "c \<in> set cs" "p \<in> set (subtree c)"
    by auto
  then show ?case
  proof cases
    case 1
    with NestedNode.prems(2) show ?thesis by simp
  next
    case 2
    with NestedNode.IH [OF 2(1) 2(2) NestedNode.prems(2)] show ?thesis by auto
  qed
qed

lemma subtree_child:
  "j < length (children p) \<Longrightarrow> s \<in> set (subtree (children p ! j)) \<Longrightarrow> s \<in> set (subtree p)"
  by (cases p) (auto intro: nth_mem)

lemma distinct_ids_apart:
  "distinct (map id (concat (map subtree cs))) \<Longrightarrow> a < length cs \<Longrightarrow> a' < length cs \<Longrightarrow>
     a \<noteq> a' \<Longrightarrow> s \<in> set (subtree (cs ! a)) \<Longrightarrow> s' \<in> set (subtree (cs ! a')) \<Longrightarrow>
     id s \<noteq> id s'"
proof (induction cs arbitrary: a a')
  case Nil
  then show ?case by simp
next
  case (Cons c cs)
  from Cons.prems(1) have d: "distinct (map id (concat (map subtree cs)))"
    and apart: "id ` set (subtree c) \<inter> id ` (\<Union>e \<in> set cs. set (subtree e)) = {}"
    by auto
  show ?case
  proof (cases a)
    case 0
    with Cons.prems obtain b' where b': "a' = Suc b'" "b' < length cs"
      by (cases a') auto
    with Cons.prems 0 have "s \<in> set (subtree c)" "s' \<in> set (subtree (cs ! b'))"
      by auto
    with b' apart show ?thesis by (force dest: nth_mem)
  next
    case (Suc b)
    show ?thesis
    proof (cases a')
      case 0
      with Cons.prems Suc have "s' \<in> set (subtree c)" "s \<in> set (subtree (cs ! b))" "b < length cs"
        by auto
      with apart show ?thesis by (force dest: nth_mem)
    next
      case (Suc b')
      with Cons.prems \<open>a = Suc b\<close> Cons.IH [OF d, of b b'] show ?thesis
        by auto
    qed
  qed
qed

lemma selectActive_elem:
  "e \<in> set (selectActive ai es) \<Longrightarrow>
     \<exists>a < length es. e = es ! a \<and> (ai = None \<or> ai = Some (int a))"
  by (auto simp: selectActive_def arrayGet_def in_set_conv_nth split: option.splits if_splits)

lemma hidden_sibling_unreached:
  "distinct (map id (subtree root)) \<Longrightarrow> p \<in> set (subtree root) \<Longrightarrow>
     activeChildIdx p = Some k \<Longrightarrow> j < length (children p) \<Longrightarrow> int j \<noteq> k \<Longrightarrow>
     s \<in> set (subtree (children p ! j)) \<Longrightarrow> (e, q) \<in> set (reached root m) \<Longrightarrow>
     id e \<noteq> id s"
proof (induction root arbitrary: m)
  case (NestedNode i nm at cs b tg ai)
  let ?root = "NestedNode i nm at cs b tg ai"
  from NestedNode.prems(1) have d: "distinct (map id (concat (map subtree cs)))"
    and fresh: "i \<notin> id ` (\<Union>c \<in> set cs. set (subtree c))"
    by auto
  have below: "\<exists>a < length cs. s \<in> set (subtree (cs ! a)) \<and>
                 (p = ?root \<and> a = j \<or> p \<in> set (subtree (cs ! a)))"
  proof (cases "p = ?root")
    case True
    with NestedNode.prems(4,6) show ?thesis by auto
  next
    case False
    with NestedNode.prems(2) obtain c where c: "c \<in> set cs" "p \<in> set (subtree c)"
      by auto
    from c(1) obtain a where "a < length cs" "cs ! a = c"
      by (auto simp: in_set_conv_nth)
    with c(2) have a: "a < length cs" "p \<in> set (subtree (cs ! a))"
      by simp_all
    from subtree_child [OF NestedNode.prems(4,6)] a(2)
    have "s \<in> set (subtree (cs ! a))"
      by (auto intro: subtree_trans)
    with a show ?thesis by auto
  qed
  then obtain a where a: "a < length cs" "s \<in> set (subtree (cs ! a))"
    and pa: "p = ?root \<and> a = j \<or> p \<in> set (subtree (cs ! a))"
    by blast
  from NestedNode.prems(7) consider "e = ?root"
    | c where "c \<in> set (selectActive ai cs)" "(e, q) \<in> set (reached c (offsetCoordinate m b))"
    by (auto simp: selectActive_map)
  then show ?case
  proof cases
    case 1
    from a fresh have "id s \<noteq> i" by (force dest: nth_mem)
    with 1 show ?thesis by auto
  next
    case 2
    from selectActive_elem [OF 2(1)] obtain a' where a': "a' < length cs" "c = cs ! a'"
      and sel: "ai = None \<or> ai = Some (int a')"
      by auto
    from 2(2) a' have e: "e \<in> set (subtree (cs ! a'))"
      by (auto dest: reached_subtree)
    show ?thesis
    proof (cases "a' = a")
      case False
      from distinct_ids_apart [OF d a'(1) a(1) False e a(2)] show ?thesis .
    next
      case True
      from pa show ?thesis
      proof
        assume "p = ?root \<and> a = j"
        with NestedNode.prems(3,5) sel True show ?thesis by auto
      next
        assume p: "p \<in> set (subtree (cs ! a))"
        have da: "distinct (map id (subtree (cs ! a)))"
          using d a(1)
        proof (induction cs arbitrary: a)
          case Nil
          then show ?case by simp
        next
          case (Cons c cs)
          then show ?case by (cases a) auto
        qed
        from NestedNode.IH [OF nth_mem [OF a(1)] da p NestedNode.prems(3,4,5,6)] 2(2) a' True
        show ?thesis by auto
      qed
    qed
  qed
qed

text \<open>
  Claim C5. Every node of the list returned by \<open>hitTest\<close> is one the descent visits,
  and the descent goes from a node with \<open>activeChildIdx\<close> set into the child at that
  index only. In a tree whose nodes have distinct ids (the identity of a node), for
  every node with \<open>activeChildIdx\<close> set, no node of the subtree of a child at another
  index is in the list.
\<close>

theorem active_child_pruning:
  "hitTest root m = Some res \<Longrightarrow>
     set res \<subseteq> fst ` set (reached root m) \<and>
     (distinct (map id (subtree root)) \<and> p \<in> set (subtree root) \<and>
      activeChildIdx p = Some k \<and> j < length (children p) \<and> int j \<noteq> k \<and>
      s \<in> set (subtree (children p ! j)) \<longrightarrow> id s \<notin> id ` set res)"
proof -
  assume "hitTest root m = Some res"
  then obtain h r where rec: "hitTestRec (Some root) m [] = Some (h, r)"
    and res: "res = sort_key area r"
    by (auto simp: hitTest_def split: option.splits)
  from hitTestRec_pure(1) [OF refl rec] have "r = hitsPostOrder root m"
    by simp
  with res have set_res:
    "set res = {n. \<exists>q. (n, q) \<in> set (reached root m) \<and> reportedHit n q}"
    by (simp add: set_hitsPostOrder)
  then have sub: "set res \<subseteq> fst ` set (reached root m)"
    by force
  moreover have "id s \<notin> id ` set res"
    if "distinct (map id (subtree root))" "p \<in> set (subtree root)"
      "activeChildIdx p = Some k" "j < length (children p)" "int j \<noteq> k"
      "s \<in> set (subtree (children p ! j))"
  proof
    assume "id s \<in> id ` set res"
    then obtain e where "e \<in> set res" "id e = id s" by auto
    with sub obtain q where "(e, q) \<in> set (reached root m)" by auto
    from hidden_sibling_unreached [OF that this] \<open>id e = id s\<close> show False by simp
  qed
  ultimately show ?thesis by blast
qed

text \<open>
  The example of the specification: a root with the overlapping children D and E, both
  at (0,0,50,50), and \<open>activeChildIdx = 1\<close>; the pointer (10,10) hits E and not D.
\<close>

theorem active_child_pruning_witness:
  "hitTest tabsExample \<lparr>x = 10, y = 10\<rparr> = Some [exampleNode (StrId ''E'') 0 0 50 50 None []]
   \<and> distinct (map id (subtree tabsExample))
   \<and> activeChildIdx tabsExample = Some 1
   \<and> children tabsExample ! 0 = exampleNode (StrId ''D'') 0 0 50 50 None []
   \<and> StrId ''D'' \<notin> id ` set [exampleNode (StrId ''E'') 0 0 50 50 None []]"
proof -
  have h: "hitTest tabsExample \<lparr>x = 10, y = 10\<rparr> =
       Some [exampleNode (StrId ''E'') 0 0 50 50 None []]"
    by (simp add: tabsExample_def hitTest_eval)
  have d: "distinct (map id (subtree tabsExample))"
    by (simp add: tabsExample_def exampleNode_def)
  have p: "tabsExample \<in> set (subtree tabsExample)"
    by (rule subtree_self)
  have k: "activeChildIdx tabsExample = Some 1"
    by (simp add: tabsExample_def exampleNode_def)
  have j: "0 < length (children tabsExample)" "int 0 \<noteq> 1"
    by (simp_all add: tabsExample_def exampleNode_def)
  have c: "children tabsExample ! 0 = exampleNode (StrId ''D'') 0 0 50 50 None []"
    by (simp add: tabsExample_def exampleNode_def)
  have s: "exampleNode (StrId ''D'') 0 0 50 50 None [] \<in> set (subtree (children tabsExample ! 0))"
    unfolding c by (rule subtree_self)
  from active_child_pruning [OF h, of tabsExample 1 0 "exampleNode (StrId ''D'') 0 0 50 50 None []"]
    d p k j s
  have "id (exampleNode (StrId ''D'') 0 0 50 50 None [])
          \<notin> id ` set [exampleNode (StrId ''E'') 0 0 50 50 None []]"
    by blast
  then have "StrId ''D'' \<notin> id ` set [exampleNode (StrId ''E'') 0 0 50 50 None []]"
    by (simp add: exampleNode_def)
  with h d k c show ?thesis by blast
qed

text \<open>
  Claim C9. The list returned by \<open>hitTest\<close> is in ascending order of
  \<open>bounds.height * bounds.width\<close>. In the witness two sibling leaves of areas 400 and
  100, listed in that order, are both hit and are returned smaller area first.
\<close>

theorem hit_sorted: "hitTest node m = Some res \<Longrightarrow> sorted (map area res)"
  by (auto simp: hitTest_def split: option.splits)

theorem hit_sorted_witness:
  "hitTest (exampleNode (NumId 1) 0 0 100 100 None
       [exampleNode (NumId 2) 0 0 20 20 None [], exampleNode (NumId 3) 0 0 10 10 None []])
     \<lparr>x = 5, y = 5\<rparr> =
     Some [exampleNode (NumId 3) 0 0 10 10 None [], exampleNode (NumId 2) 0 0 20 20 None []]
   \<and> map area [exampleNode (NumId 3) 0 0 10 10 None [], exampleNode (NumId 2) 0 0 20 20 None []]
       = [100, 400]
   \<and> sorted (map area
       [exampleNode (NumId 3) 0 0 10 10 None [], exampleNode (NumId 2) 0 0 20 20 None []])"
proof -
  have h: "hitTest (exampleNode (NumId 1) 0 0 100 100 None
       [exampleNode (NumId 2) 0 0 20 20 None [], exampleNode (NumId 3) 0 0 10 10 None []])
     \<lparr>x = 5, y = 5\<rparr> =
     Some [exampleNode (NumId 3) 0 0 10 10 None [], exampleNode (NumId 2) 0 0 20 20 None []]"
    by (simp add: hitTest_def exampleNode_def candidateChildren_def
          boundsContainsCoordinate_def offsetCoordinate_def area_def)
  from hit_sorted [OF h] h show ?thesis
    by (simp add: area_def exampleNode_def)
qed

section \<open>Total offset\<close>

lemma getTotalOffsetLoop_None: "getTotalOffsetLoop nodes None offset = Some offset"
  by (subst getTotalOffsetLoop.simps) simp

lemma getTotalOffsetLoop_unresolved:
  "nodes i = None \<Longrightarrow> getTotalOffsetLoop nodes (Some i) offset = Some offset"
  by (subst getTotalOffsetLoop.simps) (simp add: getTotalOffsetLoop_None)

lemma getTotalOffsetLoop_step:
  "nodes i = Some cur \<Longrightarrow>
     getTotalOffsetLoop nodes (Some i) offset =
       getTotalOffsetLoop nodes (ClientNode.parent cur)
         \<lparr>x = x offset + x (ClientNode.bounds cur), y = y offset + y (ClientNode.bounds cur)\<rparr>"
  by (subst getTotalOffsetLoop.simps) simp

lemma parentChain_unique:
  "parentChain nodes c ns \<Longrightarrow> parentChain nodes c ns' \<Longrightarrow> ns' = ns"
proof (induction arbitrary: ns' rule: parentChain.induct)
  case chainNull
  then show ?case by (auto elim: parentChain.cases)
next
  case (chainUnresolved i)
  from chainUnresolved.prems chainUnresolved.hyps show ?case
    by (auto elim: parentChain.cases)
next
  case (chainStep i cur ns)
  from chainStep.prems chainStep.hyps(1) obtain ms where
    "ns' = cur # ms" "parentChain nodes (ClientNode.parent cur) ms"
    by (auto elim: parentChain.cases)
  with chainStep.IH show ?case by simp
qed

lemma getTotalOffsetLoop_chain:
  assumes "wf (parentRel nodes)"
  shows "\<exists>ns. parentChain nodes (Some i) ns \<and>
           getTotalOffsetLoop nodes (Some i) offset =
             Some \<lparr>x = x offset + sum_list (map (\<lambda>n. x (ClientNode.bounds n)) ns),
                   y = y offset + sum_list (map (\<lambda>n. y (ClientNode.bounds n)) ns)\<rparr>"
  using assms
proof (induction i arbitrary: offset rule: wf_induct_rule)
  case (less i)
  show ?case
  proof (cases "nodes i")
    case None
    then show ?thesis
      by (intro exI [of _ "[]"]) (simp add: getTotalOffsetLoop_unresolved chainUnresolved)
  next
    case (Some cur)
    show ?thesis
    proof (cases "ClientNode.parent cur")
      case None
      with Some show ?thesis
        by (intro exI [of _ "[cur]"])
           (simp add: getTotalOffsetLoop_step getTotalOffsetLoop_None chainStep chainNull)
    next
      case (Some p)
      with \<open>nodes i = Some cur\<close> have "(p, i) \<in> parentRel nodes"
        by (auto simp: parentRel_def)
      from less.IH [OF this, of "\<lparr>x = x offset + x (ClientNode.bounds cur),
                                   y = y offset + y (ClientNode.bounds cur)\<rparr>"]
      obtain ns where ns: "parentChain nodes (Some p) ns"
        and r: "getTotalOffsetLoop nodes (Some p)
                  \<lparr>x = x offset + x (ClientNode.bounds cur),
                   y = y offset + y (ClientNode.bounds cur)\<rparr> =
                Some \<lparr>x = x offset + x (ClientNode.bounds cur)
                           + sum_list (map (\<lambda>n. x (ClientNode.bounds n)) ns),
                      y = y offset + y (ClientNode.bounds cur)
                           + sum_list (map (\<lambda>n. y (ClientNode.bounds n)) ns)\<rparr>"
        by auto
      from ns Some \<open>nodes i = Some cur\<close> have "parentChain nodes (Some i) (cur # ns)"
        by (auto intro: chainStep)
      moreover from r Some \<open>nodes i = Some cur\<close>
      have "getTotalOffsetLoop nodes (Some i) offset =
             Some \<lparr>x = x offset + sum_list (map (\<lambda>n. x (ClientNode.bounds n)) (cur # ns)),
                   y = y offset + sum_list (map (\<lambda>n. y (ClientNode.bounds n)) (cur # ns))\<rparr>"
        by (simp add: getTotalOffsetLoop_step add.assoc)
      ultimately show ?thesis by blast
    qed
  qed
qed

lemma finite_parentRel: "finite (dom nodes) \<Longrightarrow> finite (parentRel nodes)"
proof -
  assume "finite (dom nodes)"
  then have "finite ((\<lambda>c. (the (ClientNode.parent (the (nodes c))), c)) ` dom nodes)"
    by (rule finite_imageI)
  moreover have "parentRel nodes \<subseteq> (\<lambda>c. (the (ClientNode.parent (the (nodes c))), c)) ` dom nodes"
    by (force simp: parentRel_def)
  ultimately show ?thesis by (rule rev_finite_subset)
qed

text \<open>
  Claim C10. On a finite map whose parent links are acyclic, \<open>getTotalOffset\<close> returns
  the sums of \<open>bounds.x\<close> and \<open>bounds.y\<close> over the nodes of the parent chain of the id
  (the chain is unique); when the id is not in the map it returns (0,0).
\<close>

theorem total_offset:
  assumes "finite (dom nodes)" and "acyclic (parentRel nodes)"
  shows "(\<exists>ns. parentChain nodes (Some i) ns \<and>
            (\<forall>ns'. parentChain nodes (Some i) ns' \<longrightarrow> ns' = ns) \<and>
            getTotalOffset i nodes =
              Some \<lparr>x = sum_list (map (\<lambda>n. x (ClientNode.bounds n)) ns),
                    y = sum_list (map (\<lambda>n. y (ClientNode.bounds n)) ns)\<rparr>) \<and>
         (nodes i = None \<longrightarrow> getTotalOffset i nodes = Some \<lparr>x = 0, y = 0\<rparr>)"
proof
  from assms have "wf (parentRel nodes)"
    by (intro finite_acyclic_wf finite_parentRel)
  from getTotalOffsetLoop_chain [OF this, of i "\<lparr>x = 0, y = 0\<rparr>"]
  obtain ns where ns: "parentChain nodes (Some i) ns"
    and r: "getTotalOffset i nodes =
              Some \<lparr>x = sum_list (map (\<lambda>n. x (ClientNode.bounds n)) ns),
                    y = sum_list (map (\<lambda>n. y (ClientNode.bounds n)) ns)\<rparr>"
    by (auto simp: getTotalOffset_def)
  from ns have "\<forall>ns'. parentChain nodes (Some i) ns' \<longrightarrow> ns' = ns"
    by (auto dest: parentChain_unique)
  with ns r show "\<exists>ns. parentChain nodes (Some i) ns \<and>
            (\<forall>ns'. parentChain nodes (Some i) ns' \<longrightarrow> ns' = ns) \<and>
            getTotalOffset i nodes =
              Some \<lparr>x = sum_list (map (\<lambda>n. x (ClientNode.bounds n)) ns),
                    y = sum_list (map (\<lambda>n. y (ClientNode.bounds n)) ns)\<rparr>"
    by blast
next
  show "nodes i = None \<longrightarrow> getTotalOffset i nodes = Some \<lparr>x = 0, y = 0\<rparr>"
    by (simp add: getTotalOffset_def getTotalOffsetLoop_unresolved)
qed

lemma parentRel_offsetMap: "parentRel offsetMap = {(NumId 1, NumId 2)}"
  by (auto simp: parentRel_def offsetMap_def exampleRaw_def split: if_splits)

theorem total_offset_witness:
  "finite (dom offsetMap) \<and> acyclic (parentRel offsetMap)
   \<and> parentChain offsetMap (Some (NumId 2))
       [exampleRaw (NumId 2) (Some (NumId 1)) 5 5 20 20 None [],
        exampleRaw (NumId 1) None 10 10 200 200 None [NumId 2]]
   \<and> getTotalOffset (NumId 2) offsetMap = Some \<lparr>x = 15, y = 15\<rparr>
   \<and> getTotalOffset (NumId 7) offsetMap = Some \<lparr>x = 0, y = 0\<rparr>"
proof -
  have f: "finite (dom offsetMap)"
    by (simp add: offsetMap_def)
  have a: "acyclic (parentRel offsetMap)"
    by (simp add: parentRel_offsetMap acyclic_insert wf_acyclic)
  have c: "parentChain offsetMap (Some (NumId 2))
       [exampleRaw (NumId 2) (Some (NumId 1)) 5 5 20 20 None [],
        exampleRaw (NumId 1) None 10 10 200 200 None [NumId 2]]"
  proof -
    have "parentChain offsetMap (Some (NumId 1))
            [exampleRaw (NumId 1) None 10 10 200 200 None [NumId 2]]"
      using chainStep [of offsetMap "NumId 1"
          "exampleRaw (NumId 1) None 10 10 200 200 None [NumId 2]" "[]"]
      by (simp add: offsetMap_def exampleRaw_def chainNull)
    then show ?thesis
      using chainStep [of offsetMap "NumId 2"
          "exampleRaw (NumId 2) (Some (NumId 1)) 5 5 20 20 None []"
          "[exampleRaw (NumId 1) None 10 10 200 200 None [NumId 2]]"]
      by (simp add: offsetMap_def exampleRaw_def)
  qed
  from total_offset [OF f a, of "NumId 2"] c
  have "getTotalOffset (NumId 2) offsetMap = Some \<lparr>x = 15, y = 15\<rparr>"
    by (auto simp: exampleRaw_def)
  moreover from total_offset [OF f a, of "NumId 7"]
  have "getTotalOffset (NumId 7) offsetMap = Some \<lparr>x = 0, y = 0\<rparr>"
    by (simp add: offsetMap_def)
  ultimately show ?thesis using f a c by blast
qed

end
